theory Spec2Isabelle
  imports Main "HOL-Library.Sublist"
begin

section \<open>Strings and the regular expressions of the service\<close>

text \<open>
  A JavaScript string is modelled as a \<^typ>\<open>string\<close>; a \<^typ>\<open>char\<close> stands for one code unit
  (the code units below 256).  The white space of \<^verbatim>\<open>\s\<close> and of \<^verbatim>\<open>String.prototype.trim\<close>
  is, in that range: TAB, LF, VT, FF, CR, SPACE and NO-BREAK SPACE.
\<close>

definition is_space :: "char \<Rightarrow> bool" where
  "is_space c = (of_char c \<in> {9, 10, 11, 12, 13, 32, 160 :: nat})"

text \<open>
  Case folding as the \<^verbatim>\<open>i\<close> flag (without \<^verbatim>\<open>u\<close>) applies it to a pattern character of the
  ASCII range: a letter \<^verbatim>\<open>a\<close>..\<^verbatim>\<open>z\<close> is compared as its upper-case form, and no code unit
  outside ASCII is ever folded into ASCII.  \<open>canonicalize c\<close> is the number of the code unit
  that is compared.
\<close>

definition canonicalize :: "char \<Rightarrow> nat" where
  "canonicalize c = (let n = of_char c :: nat in if 97 \<le> n \<and> n \<le> 122 then n - 32 else n)"

text \<open>
  The regular expressions of the source use literal characters, character classes, and the
  greedy quantifiers \<^verbatim>\<open>*\<close> and \<^verbatim>\<open>+\<close> on a class.  An item matches one character of a class
  (\<open>Chr\<close>), a greedy run of a class (\<open>Many0\<close>), or the end of the input (\<open>Eos\<close>, the
  anchor \<^verbatim>\<open>$\<close> without the \<^verbatim>\<open>m\<close> flag).
\<close>

datatype item = Chr "char \<Rightarrow> bool" | Many0 "char \<Rightarrow> bool" | Eos

type_synonym regex = "item list"

definition Many1 :: "(char \<Rightarrow> bool) \<Rightarrow> regex" where
  "Many1 p = [Chr p, Many0 p]"

definition lit :: "char \<Rightarrow> item" where
  "lit c = Chr (\<lambda>x. x = c)"

definition lit_ci :: "char \<Rightarrow> item" where
  "lit_ci c = Chr (\<lambda>x. canonicalize x = canonicalize c)"

text \<open>
  \<open>rx_match r s\<close> matches \<open>r\<close> at the start of \<open>s\<close> as a backtracking matcher does: a
  greedy run takes the longest run first and gives characters back one at a time.  The
  result is the input left over by the first match found.
\<close>

fun rx_match :: "regex \<Rightarrow> string \<Rightarrow> string option" where
  "rx_match [] s = Some s"
| "rx_match (Eos # r) s = (if s = [] then rx_match r s else None)"
| "rx_match (Chr p # r) [] = None"
| "rx_match (Chr p # r) (x # xs) = (if p x then rx_match r xs else None)"
| "rx_match (Many0 p # r) [] = rx_match r []"
| "rx_match (Many0 p # r) (x # xs) =
     (if p x then (case rx_match (Many0 p # r) xs of
                     Some rest \<Rightarrow> Some rest
                   | None \<Rightarrow> rx_match r (x # xs))
      else rx_match r (x # xs))"

text \<open>\<^verbatim>\<open>regex.test(s)\<close> for a pattern that starts with the anchor \<^verbatim>\<open>^\<close>: only a match at
  position 0 counts.\<close>

definition test_anchored :: "regex \<Rightarrow> string \<Rightarrow> bool" where
  "test_anchored r s = (rx_match r s \<noteq> None)"

text \<open>
  The replacement text of \<^verbatim>\<open>String.prototype.replace\<close> is a template: \<^verbatim>\<open>$$\<close> stands for a
  dollar sign, \<^verbatim>\<open>$&\<close> for the matched text, \<^verbatim>\<open>$`\<close> for the input in front of the match and
  \<^verbatim>\<open>$'\<close> for the input behind it.  The patterns of the service have no capture group, so
  \<^verbatim>\<open>$1\<close>, \<^verbatim>\<open>$<name>\<close> and every other dollar sign stay as they are.
\<close>

fun get_substitution :: "string \<Rightarrow> string \<Rightarrow> string \<Rightarrow> string \<Rightarrow> string" where
  "get_substitution matched passed rest_in [] = []"
| "get_substitution matched passed rest_in [c] = [c]"
| "get_substitution matched passed rest_in (c # d # t) =
     (if c = CHR ''$'' then
        (if d = CHR ''$'' then CHR ''$'' # get_substitution matched passed rest_in t
         else if d = CHR ''&'' then matched @ get_substitution matched passed rest_in t
         else if d = CHR 0x60 then passed @ get_substitution matched passed rest_in t
         else if d = CHR 0x27 then rest_in @ get_substitution matched passed rest_in t
         else c # get_substitution matched passed rest_in (d # t))
      else c # get_substitution matched passed rest_in (d # t))"

text \<open>
  \<^verbatim>\<open>s.replace(/r/g, replacement)\<close>: the matches are found left to right in the input, each
  search starting where the last match ended; the replacement is not searched again.
  \<open>passed\<close> is the input in front of \<open>s\<close>.  After an empty match one character is copied.
\<close>

function replace_from :: "regex \<Rightarrow> string \<Rightarrow> string \<Rightarrow> string \<Rightarrow> string" where
  "replace_from r replacement passed s =
     (case rx_match r s of
        Some rest \<Rightarrow>
          (let matched = take (length s - length rest) s in
           get_substitution matched passed rest replacement @
           (if matched \<noteq> [] then replace_from r replacement (passed @ matched) rest
            else (case s of [] \<Rightarrow> []
                  | x # xs \<Rightarrow> x # replace_from r replacement (passed @ [x]) xs)))
      | None \<Rightarrow>
          (case s of [] \<Rightarrow> []
           | x # xs \<Rightarrow> x # replace_from r replacement (passed @ [x]) xs))"
  by pat_completeness auto
termination
  by (relation "measure (\<lambda>(r, replacement, passed, s). length s)") auto

declare replace_from.simps [simp del]

definition replace_all :: "regex \<Rightarrow> string \<Rightarrow> string \<Rightarrow> string" where
  "replace_all r replacement s = replace_from r replacement [] s"

section \<open>The email service: \<^verbatim>\<open>services/emailService.ts\<close>\<close>

record SmtpConfig =
  host :: string
  port :: int
  user :: string
  password :: string
  secure :: bool
  fromEmail :: string
  fromName :: string

text \<open>An optional field of a recipient is \<open>None\<close> when it is absent.\<close>

record EmailRecipient =
  email :: string
  firstName :: "string option"
  lastName :: "string option"
  company :: "string option"

record EmailParams =
  to :: "EmailRecipient list"
  subject :: string
  html :: string
  smtp :: SmtpConfig

text \<open>\<^verbatim>\<open>value || ''\<close>: an absent field and the empty string both give the empty string.\<close>

definition or_empty :: "string option \<Rightarrow> string" where
  "or_empty v = (case v of None \<Rightarrow> [] | Some s \<Rightarrow> s)"

text \<open>The four patterns \<^verbatim>\<open>/\[first_name\]/gi\<close>, \<^verbatim>\<open>/\[last_name\]/gi\<close>, \<^verbatim>\<open>/\[email\]/gi\<close> and
  \<^verbatim>\<open>/\[company\]/gi\<close>.\<close>

definition first_name_rx :: regex where
  "first_name_rx = map lit_ci ''[first_name]''"

definition last_name_rx :: regex where
  "last_name_rx = map lit_ci ''[last_name]''"

definition email_rx :: regex where
  "email_rx = map lit_ci ''[email]''"

definition company_rx :: regex where
  "company_rx = map lit_ci ''[company]''"

definition replaceVariables :: "string \<Rightarrow> EmailRecipient \<Rightarrow> string" where
  "replaceVariables text recipient =
     replace_all company_rx (or_empty (company recipient))
       (replace_all email_rx (email recipient)
          (replace_all last_name_rx (or_empty (lastName recipient))
             (replace_all first_name_rx (or_empty (firstName recipient)) text)))"

text \<open>
  The four calls of \<^verbatim>\<open>replace\<close> as a table, in the order of the calls: the token of each
  pattern and the replacement it is given.
\<close>

definition placeholders :: "(string \<times> (EmailRecipient \<Rightarrow> string)) list" where
  "placeholders =
     [(''[first_name]'', \<lambda>r. or_empty (firstName r)),
      (''[last_name]'', \<lambda>r. or_empty (lastName r)),
      (''[email]'', email),
      (''[company]'', \<lambda>r. or_empty (company r))]"

text \<open>
  The words of the claims about templates: \<open>ci_prefix tok s\<close> says that \<open>s\<close> starts with
  the token \<open>tok\<close> in some letter case, \<open>ci_occurs tok s\<close> that the token occurs somewhere
  in \<open>s\<close> in some letter case.
\<close>

fun ci_prefix :: "string \<Rightarrow> string \<Rightarrow> bool" where
  "ci_prefix [] s = True"
| "ci_prefix (c # cs) [] = False"
| "ci_prefix (c # cs) (x # xs) = (canonicalize x = canonicalize c \<and> ci_prefix cs xs)"

fun ci_occurs :: "string \<Rightarrow> string \<Rightarrow> bool" where
  "ci_occurs tok [] = ci_prefix tok []"
| "ci_occurs tok (x # xs) = (ci_prefix tok (x # xs) \<or> ci_occurs tok xs)"

text \<open>
  A template seen as a list of pieces: a piece is a token in some spelling, or text.  The
  template is the spellings of its pieces one after the other.
\<close>

datatype piece = Text string | Tok string

fun spelling :: "piece \<Rightarrow> string" where
  "spelling (Text s) = s"
| "spelling (Tok v) = v"

text \<open>
  What the claims expect of rendering: a token piece becomes the field that the table
  gives for the token (looked up without regard to letter case), text stays.
  \<open>partial_resolve\<close> does so for the tokens of a part of the table.
\<close>

fun partial_resolve ::
  "(string \<times> (EmailRecipient \<Rightarrow> string)) list \<Rightarrow> EmailRecipient \<Rightarrow> piece \<Rightarrow> string" where
  "partial_resolve table r (Text s) = s"
| "partial_resolve table r (Tok v) =
     (case find (\<lambda>(tok, field). map canonicalize v = map canonicalize tok) table of
        Some (tok, field) \<Rightarrow> field r
      | None \<Rightarrow> v)"

definition resolve :: "EmailRecipient \<Rightarrow> piece \<Rightarrow> string" where
  "resolve r p = partial_resolve placeholders r p"

text \<open>\<open>brackets_closed s\<close>: every \<^verbatim>\<open>[\<close> of \<open>s\<close> has a \<^verbatim>\<open>]\<close> somewhere behind it in \<open>s\<close>.\<close>

fun brackets_closed :: "string \<Rightarrow> bool" where
  "brackets_closed [] = True"
| "brackets_closed (x # xs) = ((x = CHR ''['' \<longrightarrow> CHR '']'' \<in> set xs) \<and> brackets_closed xs)"

text \<open>
  The pieces for which the expectation is stated.  A text piece holds none of the four
  tokens and has its brackets closed.  A token piece spells the token at some place \<open>k\<close>
  of the table, and the field it stands for holds no \<^verbatim>\<open>$\<close>, has its brackets closed and
  holds no token of a later place of the table.
\<close>

fun piece_ok :: "EmailRecipient \<Rightarrow> piece \<Rightarrow> bool" where
  "piece_ok r (Text s) =
     (brackets_closed s \<and> (\<forall>(tok, field) \<in> set placeholders. \<not> ci_occurs tok s))"
| "piece_ok r (Tok v) =
     (\<exists>k < length placeholders.
        case placeholders ! k of (tok, field) \<Rightarrow>
          map canonicalize v = map canonicalize tok \<and>
          CHR ''$'' \<notin> set (field r) \<and> brackets_closed (field r) \<and>
          (\<forall>(tok', field') \<in> set (drop (Suc k) placeholders). \<not> ci_occurs tok' (field r)))"

text \<open>The class \<^verbatim>\<open>[^\s@]\<close> and the pattern \<^verbatim>\<open>/^[^\s@]+@[^\s@]+\.[^\s@]+$/\<close>.\<close>

definition not_space_at :: "char \<Rightarrow> bool" where
  "not_space_at c = (\<not> is_space c \<and> c \<noteq> CHR ''@'')"

definition emailRegex :: regex where
  "emailRegex =
     Many1 not_space_at @ [lit CHR ''@''] @ Many1 not_space_at @ [lit CHR ''.''] @
     Many1 not_space_at @ [Eos]"

definition validateRecipient :: "EmailRecipient \<Rightarrow> bool" where
  "validateRecipient recipient = test_anchored emailRegex (email recipient)"

text \<open>The two filters at the start of \<^verbatim>\<open>sendEmail\<close>.\<close>

definition validRecipients :: "EmailRecipient list \<Rightarrow> EmailRecipient list" where
  "validRecipients rs = filter validateRecipient rs"

definition invalidRecipients :: "EmailRecipient list \<Rightarrow> EmailRecipient list" where
  "invalidRecipients rs = filter (\<lambda>r. \<not> validateRecipient r) rs"

text \<open>The options \<^verbatim>\<open>sendEmail\<close> gives to \<^verbatim>\<open>new SMTPClient\<close>, and a message given to
  \<^verbatim>\<open>client.sendAsync\<close>.\<close>

record SMTPClientOptions =
  host :: string
  port :: int
  user :: string
  password :: string
  ssl :: bool
  timeout :: nat
  tls_rejectUnauthorized :: bool

record Message =
  msg_from :: string
  msg_to :: string
  msg_subject :: string
  msg_text :: string
  msg_attachment_data :: string

text \<open>A thrown value is an \<^verbatim>\<open>Error\<close> with its message, or something else.\<close>

datatype thrown = Error string | NonError

text \<open>
  The environment \<^verbatim>\<open>process.env\<close> is a map.  The SMTP client and the server behind it are a
  parameter: \<open>sendAsync sent m\<close> is how the promise of \<^verbatim>\<open>client.sendAsync(m)\<close> settles when
  the messages \<open>sent\<close> were given to the client earlier: \<open>None\<close> when it resolves,
  \<open>Some e\<close> when it rejects with \<open>e\<close>.  Every promise is taken to settle.  The calls of
  the logger write to a sink and are left out.
\<close>

type_synonym env = "string \<rightharpoonup> string"

type_synonym transport = "Message list \<Rightarrow> Message \<Rightarrow> thrown option"

text \<open>The pattern \<^verbatim>\<open>/<[^>]*>/g\<close> that strips the tags for the plain text.\<close>

definition tag_rx :: regex where
  "tag_rx = [lit CHR ''<'', Many0 (\<lambda>c. c \<noteq> CHR ''>''), lit CHR ''>'']"

definition make_message :: "SmtpConfig \<Rightarrow> string \<Rightarrow> string \<Rightarrow> EmailRecipient \<Rightarrow> Message" where
  "make_message cfg subj body recipient =
     (let personalizedSubject = replaceVariables subj recipient;
          personalizedHtml = replaceVariables body recipient;
          plainText = replace_all tag_rx [] personalizedHtml
      in \<lparr>msg_from = SmtpConfig.fromName cfg @ '' <'' @ SmtpConfig.fromEmail cfg @ ''>'',
          msg_to = email recipient,
          msg_subject = personalizedSubject,
          msg_text = plainText,
          msg_attachment_data = personalizedHtml\<rparr>)"

text \<open>
  The \<^verbatim>\<open>for\<close> loop inside the \<^verbatim>\<open>try\<close> block: the first send that rejects leaves the loop
  with the thrown value.  The result holds the messages given to the client, in order.
\<close>

fun send_loop ::
  "transport \<Rightarrow> SmtpConfig \<Rightarrow> string \<Rightarrow> string \<Rightarrow> Message list \<Rightarrow> EmailRecipient list
     \<Rightarrow> thrown option \<times> Message list" where
  "send_loop sendAsync cfg subj body sent [] = (None, sent)"
| "send_loop sendAsync cfg subj body sent (recipient # rest) =
     (let m = make_message cfg subj body recipient in
      case sendAsync sent m of
        Some e \<Rightarrow> (Some e, sent @ [m])
      | None \<Rightarrow> send_loop sendAsync cfg subj body (sent @ [m]) rest)"

text \<open>
  What a call of \<^verbatim>\<open>sendEmail\<close> does: how it ends (\<open>Inl e\<close> when it throws \<open>e\<close>), the options
  of the SMTP client it made (\<open>None\<close> when it made none), and the messages it gave to the
  client.
\<close>

record Outcome =
  result :: "thrown + unit"
  client :: "SMTPClientOptions option"
  sent :: "Message list"

definition sendEmail :: "env \<Rightarrow> transport \<Rightarrow> EmailParams \<Rightarrow> Outcome" where
  "sendEmail process_env sendAsync p =
     (if length (validRecipients (to p)) = 0 then
        \<lparr>result = Inl (Error ''No valid recipients provided''), client = None, sent = []\<rparr>
      else
        let options =
              \<lparr>SMTPClientOptions.host = SmtpConfig.host (smtp p),
               port = SmtpConfig.port (smtp p),
               user = SmtpConfig.user (smtp p),
               password = SmtpConfig.password (smtp p),
               ssl = SmtpConfig.secure (smtp p),
               timeout = 30000,
               tls_rejectUnauthorized = (process_env ''NODE_ENV'' = Some ''production'')\<rparr>
        in case send_loop sendAsync (smtp p) (EmailParams.subject p) (html p) [] (validRecipients (to p)) of
             (Some e, ms) \<Rightarrow> \<lparr>result = Inl e, client = Some options, sent = ms\<rparr>
           | (None, ms) \<Rightarrow> \<lparr>result = Inr (), client = Some options, sent = ms\<rparr>)"

section \<open>The HTTP route: \<^verbatim>\<open>routes/email.ts\<close>\<close>

text \<open>The request body as its interface declares it.\<close>

record SmtpConfigValidation =
  host :: string
  port :: int
  username :: string
  password :: string
  secure :: bool
  fromEmail :: string
  fromName :: string

record EmailRequestBody =
  recipients :: "EmailRecipient list"
  subject :: string
  body :: string
  smtpConfig :: SmtpConfigValidation

text \<open>
  The body as it arrives (\<^verbatim>\<open>any\<close>): a field is \<open>None\<close> when it is absent (for the
  recipients, the subject, the body and the SMTP configuration also when it is not of the
  type the validation asks for).  A port that is present is a number, taken to be an
  integer, or a value of another type.  The other values are taken to have their declared
  types.
\<close>

datatype port_field = Num int | NotNum

record RawSmtpConfig =
  raw_host :: "string option"
  raw_port :: "port_field option"
  raw_username :: "string option"
  raw_password :: "string option"
  raw_secure :: "bool option"
  raw_fromEmail :: "string option"
  raw_fromName :: "string option"

record RawBody =
  raw_recipients :: "EmailRecipient list option"
  raw_subject :: "string option"
  raw_body :: "string option"
  raw_smtpConfig :: "RawSmtpConfig option"

definition trim :: "string \<Rightarrow> string" where
  "trim s = rev (dropWhile is_space (rev (dropWhile is_space s)))"

text \<open>
  \<^verbatim>\<open>validateEmailRequest\<close> throws at the first check that fails; the required SMTP fields are
  looked for in the order of \<^verbatim>\<open>requiredSmtpFields\<close>.  When no check fails the body has the
  type \<open>EmailRequestBody\<close>, and the model returns it at that type.
\<close>

definition validateEmailRequest :: "RawBody \<Rightarrow> thrown + EmailRequestBody" where
  "validateEmailRequest b =
     (case raw_recipients b of
        None \<Rightarrow> Inl (Error ''Recipients must be a non-empty array'')
      | Some rs \<Rightarrow>
     if length rs = 0 then Inl (Error ''Recipients must be a non-empty array'') else
     (case raw_subject b of
        None \<Rightarrow> Inl (Error ''Subject is required'')
      | Some subj \<Rightarrow>
     if length (trim subj) = 0 then Inl (Error ''Subject is required'') else
     (case raw_body b of
        None \<Rightarrow> Inl (Error ''Email body is required'')
      | Some emailBody \<Rightarrow>
     if length (trim emailBody) = 0 then Inl (Error ''Email body is required'') else
     (case raw_smtpConfig b of
        None \<Rightarrow> Inl (Error ''SMTP configuration is required'')
      | Some cfg \<Rightarrow>
     (case raw_host cfg of
        None \<Rightarrow> Inl (Error (''Missing required SMTP field: '' @ ''host''))
      | Some h \<Rightarrow>
     (case raw_port cfg of
        None \<Rightarrow> Inl (Error (''Missing required SMTP field: '' @ ''port''))
      | Some pv \<Rightarrow>
     (case raw_username cfg of
        None \<Rightarrow> Inl (Error (''Missing required SMTP field: '' @ ''username''))
      | Some un \<Rightarrow>
     (case raw_password cfg of
        None \<Rightarrow> Inl (Error (''Missing required SMTP field: '' @ ''password''))
      | Some pw \<Rightarrow>
     (case raw_secure cfg of
        None \<Rightarrow> Inl (Error (''Missing required SMTP field: '' @ ''secure''))
      | Some sec \<Rightarrow>
     (case raw_fromEmail cfg of
        None \<Rightarrow> Inl (Error (''Missing required SMTP field: '' @ ''fromEmail''))
      | Some fe \<Rightarrow>
     (case raw_fromName cfg of
        None \<Rightarrow> Inl (Error (''Missing required SMTP field: '' @ ''fromName''))
      | Some fn \<Rightarrow>
     (case pv of
        NotNum \<Rightarrow> Inl (Error ''SMTP port must be a positive number'')
      | Num pt \<Rightarrow>
     if pt \<le> 0 then Inl (Error ''SMTP port must be a positive number'') else
     Inr \<lparr>recipients = rs, subject = subj, body = emailBody,
          smtpConfig = \<lparr>SmtpConfigValidation.host = h, port = pt, username = un, password = pw,
                         secure = sec, fromEmail = fe, fromName = fn\<rparr>\<rparr>))))))))))))"

text \<open>\<^verbatim>\<open>s.includes(part)\<close>.\<close>

fun js_includes :: "string \<Rightarrow> string \<Rightarrow> bool" where
  "js_includes [] part = (part = [])"
| "js_includes (x # xs) part = (prefix part (x # xs) \<or> js_includes xs part)"

text \<open>The decimal digits of a number, as a template literal prints it.\<close>

definition digit_char :: "nat \<Rightarrow> char" where
  "digit_char d = ''0123456789'' ! (d mod 10)"

function string_of_nat :: "nat \<Rightarrow> string" where
  "string_of_nat n =
     (if n < 10 then [digit_char n] else string_of_nat (n div 10) @ [digit_char (n mod 10)])"
  by pat_completeness auto
termination
  by (relation "measure (\<lambda>n. n)") auto

declare string_of_nat.simps [simp del]

text \<open>The HTTP response: the status and the fields of the JSON body.\<close>

record Response =
  status :: nat
  success :: bool
  message :: string
  error :: "string option"

text \<open>The \<^verbatim>\<open>catch\<close> block of the handler.\<close>

definition error_response :: "env \<Rightarrow> thrown \<Rightarrow> Response" where
  "error_response process_env e =
     (case e of
        Error msg \<Rightarrow>
          (let isValidationError =
                 (js_includes msg ''required'' \<or> js_includes msg ''must be'' \<or> js_includes msg ''Missing'')
           in \<lparr>status = (if isValidationError then 400 else 500),
               success = False,
               message = (if isValidationError then msg else ''Failed to send email''),
               error = (if process_env ''NODE_ENV'' = Some ''development'' then Some msg else None)\<rparr>)
      | NonError \<Rightarrow>
          \<lparr>status = 500, success = False, message = ''An unexpected error occurred'',
           error = None\<rparr>)"

text \<open>
  The handler gives the response and the messages that were given to the SMTP client.
\<close>

definition sendEmailHandler :: "env \<Rightarrow> transport \<Rightarrow> RawBody \<Rightarrow> Response \<times> Message list" where
  "sendEmailHandler process_env sendAsync req_body =
     (case validateEmailRequest req_body of
        Inl e \<Rightarrow> (error_response process_env e, [])
      | Inr b \<Rightarrow>
          (let out = sendEmail process_env sendAsync
                 \<lparr>to = recipients b,
                  subject = EmailRequestBody.subject b,
                  html = body b,
                  smtp = \<lparr>SmtpConfig.host = SmtpConfigValidation.host (smtpConfig b),
                          port = SmtpConfigValidation.port (smtpConfig b),
                          user = username (smtpConfig b),
                          password = SmtpConfigValidation.password (smtpConfig b),
                          secure = SmtpConfigValidation.secure (smtpConfig b),
                          fromEmail = SmtpConfigValidation.fromEmail (smtpConfig b),
                          fromName = SmtpConfigValidation.fromName (smtpConfig b)\<rparr>\<rparr>
           in case result out of
                Inl e \<Rightarrow> (error_response process_env e, sent out)
              | Inr u \<Rightarrow>
                  (\<lparr>status = 200, success = True,
                    message = ''Email sent successfully to '' @
                              string_of_nat (length (recipients b)) @ '' recipient(s)'',
                    error = None\<rparr>, sent out)))"

section \<open>Example inputs\<close>

definition ann :: EmailRecipient where
  "ann = \<lparr>email = ''ann@x.com'', firstName = Some ''Ann'', lastName = None, company = None\<rparr>"

definition bob :: EmailRecipient where
  "bob = \<lparr>email = ''bob@x.com'', firstName = Some ''Bob'', lastName = None, company = None\<rparr>"

definition cyd :: EmailRecipient where
  "cyd = \<lparr>email = ''cyd@x.com'', firstName = None, lastName = None, company = None\<rparr>"

definition malformed :: EmailRecipient where
  "malformed = \<lparr>email = ''not-an-email'', firstName = None, lastName = None, company = None\<rparr>"

definition smtp0 :: SmtpConfig where
  "smtp0 = \<lparr>SmtpConfig.host = ''smtp.x.com'', port = 587, user = ''u'', password = ''p'',
             secure = False, fromEmail = ''me@x.com'', fromName = ''Me''\<rparr>"

text \<open>A server that rejects every message to \<^verbatim>\<open>bob@x.com\<close> and accepts the others.\<close>

definition reject_bob :: transport where
  "reject_bob earlier m =
     (if msg_to m = ''bob@x.com'' then Some (Error ''550 mailbox unavailable'') else None)"

definition three_valid :: EmailParams where
  "three_valid = \<lparr>to = [ann, bob, cyd], subject = ''Hi [first_name]'',
                   html = ''<p>Hello [first_name]</p>'', smtp = smtp0\<rparr>"

text \<open>A server that accepts every message, and one that rejects every message.\<close>

definition accept_all :: transport where
  "accept_all earlier m = None"

definition reject_auth :: transport where
  "reject_auth earlier m = Some (Error ''530 authentication required'')"

definition one_valid :: EmailParams where
  "one_valid = \<lparr>to = [ann], subject = ''Hi'', html = ''Hello'', smtp = smtp0\<rparr>"

text \<open>Request bodies that pass \<^verbatim>\<open>validateEmailRequest\<close>.\<close>

definition raw_smtp0 :: RawSmtpConfig where
  "raw_smtp0 = \<lparr>raw_host = Some ''smtp.x.com'', raw_port = Some (Num 587), raw_username = Some ''u'',
                 raw_password = Some ''p'', raw_secure = Some False,
                 raw_fromEmail = Some ''me@x.com'', raw_fromName = Some ''Me''\<rparr>"

definition request_to :: "EmailRecipient list \<Rightarrow> RawBody" where
  "request_to rs = \<lparr>raw_recipients = Some rs, raw_subject = Some ''Hi'',
                     raw_body = Some ''Hello'', raw_smtpConfig = Some raw_smtp0\<rparr>"

text \<open>Recipients whose address holds a token, and one whose address holds \<^verbatim>\<open>$&\<close>.\<close>

definition token_address :: EmailRecipient where
  "token_address = \<lparr>email = ''[company]@x.com'', firstName = None, lastName = None,
                     company = Some ''Acme''\<rparr>"

definition token_name :: EmailRecipient where
  "token_name = \<lparr>email = ''sales@[company].com'', firstName = Some ''[email]'', lastName = None,
                  company = Some ''Acme''\<rparr>"

definition dollar_address :: EmailRecipient where
  "dollar_address = \<lparr>email = ''a$&b@x.com'', firstName = None, lastName = None, company = None\<rparr>"

definition email_as_name :: EmailRecipient where
  "email_as_name = \<lparr>email = ''ann@x.com'', firstName = Some ''[email]'', lastName = None,
                     company = None\<rparr>"

text \<open>A recipient with a company, and a template of several tokens as a list of pieces.\<close>

definition ann_acme :: EmailRecipient where
  "ann_acme = \<lparr>email = ''ann@x.com'', firstName = Some ''Ann'', lastName = None,
                company = Some ''Acme''\<rparr>"

definition greeting :: "piece list" where
  "greeting = [Text ''Hello '', Tok ''[First_Name]'', Text '' at '', Tok ''[company]'',
               Text '': '', Tok ''[email]'', Text '' '', Tok ''[EMAIL]'', Text '' [name]'']"

section \<open>The matcher\<close>

lemma rx_match_Chr:
  "rx_match (Chr p # r) s \<noteq> None \<longleftrightarrow> (\<exists>x xs. s = x # xs \<and> p x \<and> rx_match r xs \<noteq> None)"
  by (cases s) auto

lemma rx_match_Many0:
  "rx_match (Many0 p # r) s \<noteq> None \<longleftrightarrow>
     (\<exists>u v. s = u @ v \<and> (\<forall>c\<in>set u. p c) \<and> rx_match r v \<noteq> None)"
proof (induction s)
  case Nil
  then show ?case by simp
next
  case (Cons x xs)
  show ?case
  proof
    assume m: "rx_match (Many0 p # r) (x # xs) \<noteq> None"
    show "\<exists>u v. x # xs = u @ v \<and> (\<forall>c\<in>set u. p c) \<and> rx_match r v \<noteq> None"
    proof (cases "p x \<and> rx_match (Many0 p # r) xs \<noteq> None")
      case True
      with Cons.IH obtain u v where "xs = u @ v" "\<forall>c\<in>set u. p c" "rx_match r v \<noteq> None"
        by blast
      with True have "x # xs = (x # u) @ v \<and> (\<forall>c\<in>set (x # u). p c) \<and> rx_match r v \<noteq> None"
        by simp
      then show ?thesis by blast
    next
      case False
      with m have "rx_match r (x # xs) \<noteq> None"
        by (auto split: if_splits option.splits)
      then have "x # xs = [] @ (x # xs) \<and> (\<forall>c\<in>set []. p c) \<and> rx_match r (x # xs) \<noteq> None"
        by simp
      then show ?thesis by blast
    qed
  next
    assume "\<exists>u v. x # xs = u @ v \<and> (\<forall>c\<in>set u. p c) \<and> rx_match r v \<noteq> None"
    then obtain u v where uv: "x # xs = u @ v" "\<forall>c\<in>set u. p c" "rx_match r v \<noteq> None"
      by blast
    show "rx_match (Many0 p # r) (x # xs) \<noteq> None"
    proof (cases u)
      case Nil
      with uv show ?thesis by (auto split: option.splits)
    next
      case (Cons y ys)
      with uv have "y = x" "xs = ys @ v" "p x" "\<forall>c\<in>set ys. p c" by auto
      with uv Cons.IH have "rx_match (Many0 p # r) xs \<noteq> None" by blast
      with \<open>p x\<close> show ?thesis by (auto split: option.splits)
    qed
  qed
qed

lemma rx_match_Eos: "rx_match [Eos] s \<noteq> None \<longleftrightarrow> s = []"
  by simp

lemma rx_match_Many1:
  "rx_match (Many1 p @ r) s \<noteq> None \<longleftrightarrow>
     (\<exists>u v. s = u @ v \<and> u \<noteq> [] \<and> (\<forall>c\<in>set u. p c) \<and> rx_match r v \<noteq> None)"
proof
  assume "rx_match (Many1 p @ r) s \<noteq> None"
  then have "rx_match (Chr p # Many0 p # r) s \<noteq> None"
    by (simp add: Many1_def)
  then obtain x xs where x: "s = x # xs" "p x" "rx_match (Many0 p # r) xs \<noteq> None"
    using rx_match_Chr [THEN iffD1] by blast
  from x(3) obtain u v where "xs = u @ v" "\<forall>c\<in>set u. p c" "rx_match r v \<noteq> None"
    using rx_match_Many0 [THEN iffD1] by blast
  with x have "s = (x # u) @ v \<and> x # u \<noteq> [] \<and> (\<forall>c\<in>set (x # u). p c) \<and> rx_match r v \<noteq> None"
    by simp
  then show "\<exists>u v. s = u @ v \<and> u \<noteq> [] \<and> (\<forall>c\<in>set u. p c) \<and> rx_match r v \<noteq> None"
    by blast
next
  assume "\<exists>u v. s = u @ v \<and> u \<noteq> [] \<and> (\<forall>c\<in>set u. p c) \<and> rx_match r v \<noteq> None"
  then obtain u v where uv: "s = u @ v" "u \<noteq> []" "\<forall>c\<in>set u. p c" "rx_match r v \<noteq> None"
    by blast
  then obtain x u' where u: "u = x # u'" by (cases u) auto
  with uv have s: "s = x # u' @ v" "p x" "\<forall>c\<in>set u'. p c" by simp_all
  from s(3) uv(4) have "rx_match (Many0 p # r) (u' @ v) \<noteq> None"
    using rx_match_Many0 [THEN iffD2] by blast
  with s have "rx_match (Chr p # Many0 p # r) s \<noteq> None"
    using rx_match_Chr [THEN iffD2] by blast
  then show "rx_match (Many1 p @ r) s \<noteq> None"
    by (simp add: Many1_def)
qed

lemma rx_match_lit:
  "rx_match (lit c # r) s \<noteq> None \<longleftrightarrow> (\<exists>xs. s = c # xs \<and> rx_match r xs \<noteq> None)"
  unfolding lit_def by (cases s) auto

lemma test_Many1:
  "test_anchored (Many1 p @ r) s \<longleftrightarrow>
     (\<exists>u v. s = u @ v \<and> u \<noteq> [] \<and> (\<forall>c\<in>set u. p c) \<and> test_anchored r v)"
  unfolding test_anchored_def by (rule rx_match_Many1)

lemma test_lit:
  "test_anchored (lit c # r) s \<longleftrightarrow> (\<exists>xs. s = c # xs \<and> test_anchored r xs)"
  unfolding test_anchored_def by (rule rx_match_lit)

lemma test_Eos: "test_anchored [Eos] s \<longleftrightarrow> s = []"
  unfolding test_anchored_def by simp

lemma emailRegex_accepts:
  "test_anchored emailRegex s \<longleftrightarrow>
     (\<exists>l d t. s = l @ ''@'' @ d @ ''.'' @ t \<and> l \<noteq> [] \<and> d \<noteq> [] \<and> t \<noteq> [] \<and>
        (\<forall>c\<in>set (l @ d @ t). not_space_at c))"
proof
  assume "test_anchored emailRegex s"
  then obtain l v1 where 1: "s = l @ v1" "l \<noteq> []" "\<forall>c\<in>set l. not_space_at c"
    and "test_anchored (lit CHR ''@'' # Many1 not_space_at @ lit CHR ''.'' # Many1 not_space_at @ [Eos]) v1"
    unfolding emailRegex_def using test_Many1 [THEN iffD1] by (metis append_Cons append_Nil)
  then obtain v2 where 2: "v1 = CHR ''@'' # v2"
    and "test_anchored (Many1 not_space_at @ lit CHR ''.'' # Many1 not_space_at @ [Eos]) v2"
    using test_lit [THEN iffD1] by blast
  then obtain d v3 where 3: "v2 = d @ v3" "d \<noteq> []" "\<forall>c\<in>set d. not_space_at c"
    and "test_anchored (lit CHR ''.'' # Many1 not_space_at @ [Eos]) v3"
    using test_Many1 [THEN iffD1] by blast
  then obtain v4 where 4: "v3 = CHR ''.'' # v4"
    and "test_anchored (Many1 not_space_at @ [Eos]) v4"
    using test_lit [THEN iffD1] by blast
  then obtain t v5 where 5: "v4 = t @ v5" "t \<noteq> []" "\<forall>c\<in>set t. not_space_at c"
    and "test_anchored [Eos] v5"
    using test_Many1 [THEN iffD1] by blast
  then have 6: "v5 = []" by (simp add: test_Eos)
  from 1 2 3 4 5 6
  have "s = l @ ''@'' @ d @ ''.'' @ t \<and> l \<noteq> [] \<and> d \<noteq> [] \<and> t \<noteq> [] \<and>
        (\<forall>c\<in>set (l @ d @ t). not_space_at c)"
    by auto
  then show "\<exists>l d t. s = l @ ''@'' @ d @ ''.'' @ t \<and> l \<noteq> [] \<and> d \<noteq> [] \<and> t \<noteq> [] \<and>
        (\<forall>c\<in>set (l @ d @ t). not_space_at c)"
    by blast
next
  assume "\<exists>l d t. s = l @ ''@'' @ d @ ''.'' @ t \<and> l \<noteq> [] \<and> d \<noteq> [] \<and> t \<noteq> [] \<and>
        (\<forall>c\<in>set (l @ d @ t). not_space_at c)"
  then obtain l d t where s: "s = l @ CHR ''@'' # d @ CHR ''.'' # t"
    and ne: "l \<noteq> []" "d \<noteq> []" "t \<noteq> []"
    and cl: "\<forall>c\<in>set l. not_space_at c" "\<forall>c\<in>set d. not_space_at c" "\<forall>c\<in>set t. not_space_at c"
    by auto
  have "test_anchored (Many1 not_space_at @ [Eos]) t"
    using test_Many1 [THEN iffD2, of t not_space_at "[Eos]"] ne cl by (simp add: test_Eos)
  then have "test_anchored (lit CHR ''.'' # Many1 not_space_at @ [Eos]) (CHR ''.'' # t)"
    by (simp add: test_lit)
  then have "test_anchored (Many1 not_space_at @ lit CHR ''.'' # Many1 not_space_at @ [Eos]) (d @ CHR ''.'' # t)"
    using test_Many1 [THEN iffD2] ne cl by blast
  then have "test_anchored (lit CHR ''@'' # Many1 not_space_at @ lit CHR ''.'' # Many1 not_space_at @ [Eos])
      (CHR ''@'' # d @ CHR ''.'' # t)"
    by (simp add: test_lit)
  then have "test_anchored (Many1 not_space_at @ lit CHR ''@'' # Many1 not_space_at @ lit CHR ''.'' # Many1 not_space_at @ [Eos])
      (l @ CHR ''@'' # d @ CHR ''.'' # t)"
    using test_Many1 [THEN iffD2] ne cl by blast
  then show "test_anchored emailRegex s"
    by (simp add: emailRegex_def s)
qed

lemma is_space_at_dot: "\<not> is_space CHR ''@''" "\<not> is_space CHR ''.''"
  by (simp_all add: is_space_def)

text \<open>
  Claim C7.  A recipient is classified valid if and only if its address has the shape
  local-part@domain.tld: it contains no white space, it contains exactly one \<^verbatim>\<open>@\<close>, and
  it splits as \<open>l @ d . t\<close> with a dot behind the \<^verbatim>\<open>@\<close> and the three segments
  \<open>l\<close>, \<open>d\<close> and \<open>t\<close> around the \<^verbatim>\<open>@\<close> and that dot non-empty.
\<close>

theorem validateRecipient_iff_shape:
  "validateRecipient r \<longleftrightarrow>
     (\<forall>c\<in>set (email r). \<not> is_space c) \<and>
     count_list (email r) CHR ''@'' = 1 \<and>
     (\<exists>l d t. email r = l @ ''@'' @ d @ ''.'' @ t \<and> l \<noteq> [] \<and> d \<noteq> [] \<and> t \<noteq> [])"
proof
  assume "validateRecipient r"
  then obtain l d t where s: "email r = l @ ''@'' @ d @ ''.'' @ t"
    and ne: "l \<noteq> []" "d \<noteq> []" "t \<noteq> []"
    and cl: "\<forall>c\<in>set (l @ d @ t). not_space_at c"
    unfolding validateRecipient_def emailRegex_accepts by blast
  from cl have "CHR ''@'' \<notin> set l" "CHR ''@'' \<notin> set d" "CHR ''@'' \<notin> set t"
    by (auto simp: not_space_at_def)
  then have "count_list (email r) CHR ''@'' = 1"
    by (simp add: s)
  moreover from cl have "\<forall>c\<in>set (email r). \<not> is_space c"
    by (auto simp: s not_space_at_def is_space_at_dot)
  ultimately show "(\<forall>c\<in>set (email r). \<not> is_space c) \<and>
     count_list (email r) CHR ''@'' = 1 \<and>
     (\<exists>l d t. email r = l @ ''@'' @ d @ ''.'' @ t \<and> l \<noteq> [] \<and> d \<noteq> [] \<and> t \<noteq> [])"
    using s ne by blast
next
  assume "(\<forall>c\<in>set (email r). \<not> is_space c) \<and>
     count_list (email r) CHR ''@'' = 1 \<and>
     (\<exists>l d t. email r = l @ ''@'' @ d @ ''.'' @ t \<and> l \<noteq> [] \<and> d \<noteq> [] \<and> t \<noteq> [])"
  then obtain l d t where sp: "\<forall>c\<in>set (email r). \<not> is_space c"
    and one: "count_list (email r) CHR ''@'' = 1"
    and s: "email r = l @ ''@'' @ d @ ''.'' @ t"
    and ne: "l \<noteq> []" "d \<noteq> []" "t \<noteq> []"
    by blast
  from one have "count_list l CHR ''@'' = 0 \<and> count_list d CHR ''@'' = 0 \<and> count_list t CHR ''@'' = 0"
    by (simp add: s)
  then have "CHR ''@'' \<notin> set (l @ d @ t)"
    by (simp add: count_list_0_iff)
  moreover from sp have "\<forall>c\<in>set (l @ d @ t). \<not> is_space c"
    by (auto simp: s)
  ultimately have "\<forall>c\<in>set (l @ d @ t). not_space_at c"
    unfolding not_space_at_def by blast
  with s ne show "validateRecipient r"
    unfolding validateRecipient_def emailRegex_accepts by blast
qed

text \<open>The theorem at \<^verbatim>\<open>ann@x.com\<close>, which has the shape, and at \<^verbatim>\<open>ann@x.\<close>, which has not.\<close>

theorem validateRecipient_iff_shape_witness:
  "validateRecipient \<lparr>email = ''ann@x.com'', firstName = None, lastName = None, company = None\<rparr>
   \<and> \<not> validateRecipient \<lparr>email = ''ann@x.'', firstName = None, lastName = None, company = None\<rparr>"
proof -
  have "''ann@x.com'' = ''ann'' @ ''@'' @ ''x'' @ ''.'' @ ''com'' \<and> ''ann'' \<noteq> [] \<and> ''x'' \<noteq> [] \<and> ''com'' \<noteq> []"
    by simp
  then have "\<exists>l d t. ''ann@x.com'' = l @ ''@'' @ d @ ''.'' @ t \<and> l \<noteq> [] \<and> d \<noteq> [] \<and> t \<noteq> []"
    by blast
  moreover have "\<forall>c\<in>set ''ann@x.com''. \<not> is_space c"
    by (simp add: is_space_def)
  moreover have "count_list ''ann@x.com'' CHR ''@'' = 1"
    by simp
  ultimately have a: "validateRecipient \<lparr>email = ''ann@x.com'', firstName = None, lastName = None, company = None\<rparr>"
    using validateRecipient_iff_shape [of "\<lparr>email = ''ann@x.com'', firstName = None, lastName = None, company = None\<rparr>"]
    by simp
  have "\<not> (\<exists>l d t. ''ann@x.'' = l @ ''@'' @ d @ ''.'' @ t \<and> l \<noteq> [] \<and> d \<noteq> [] \<and> t \<noteq> [])"
    by (auto simp: append_eq_Cons_conv Cons_eq_append_conv)
  then have b: "\<not> validateRecipient \<lparr>email = ''ann@x.'', firstName = None, lastName = None, company = None\<rparr>"
    using validateRecipient_iff_shape [of "\<lparr>email = ''ann@x.'', firstName = None, lastName = None, company = None\<rparr>"]
    by simp
  from a b show ?thesis by blast
qed


section \<open>The partition of the recipients\<close>

lemma count_list_filter:
  "count_list (filter P xs) x = (if P x then count_list xs x else 0)"
  by (induction xs) auto

text \<open>
  Claim C6.  The partition of a recipient list into valid and invalid recipients is total
  and stable: the lengths of the two outputs add up to the length of the input, every
  recipient of the input is in exactly one of the two outputs (and occurs there as often
  as in the input), and each output keeps the order of the input.
\<close>

theorem partition_total_stable:
  "length (validRecipients rs) + length (invalidRecipients rs) = length rs \<and>
   (\<forall>r\<in>set rs. (r \<in> set (validRecipients rs)) \<noteq> (r \<in> set (invalidRecipients rs))) \<and>
   (\<forall>r. count_list (validRecipients rs) r + count_list (invalidRecipients rs) r = count_list rs r) \<and>
   subseq (validRecipients rs) rs \<and> subseq (invalidRecipients rs) rs"
proof -
  have "length (validRecipients rs) + length (invalidRecipients rs) = length rs"
    unfolding validRecipients_def invalidRecipients_def by (rule sum_length_filter_compl)
  moreover have "\<forall>r\<in>set rs. (r \<in> set (validRecipients rs)) \<noteq> (r \<in> set (invalidRecipients rs))"
    unfolding validRecipients_def invalidRecipients_def by auto
  moreover have "\<forall>r. count_list (validRecipients rs) r + count_list (invalidRecipients rs) r = count_list rs r"
    unfolding validRecipients_def invalidRecipients_def by (simp add: count_list_filter)
  moreover have "subseq (validRecipients rs) rs" "subseq (invalidRecipients rs) rs"
    unfolding validRecipients_def invalidRecipients_def by simp_all
  ultimately show ?thesis by blast
qed

lemmas rx_eval = validateRecipient_def test_anchored_def emailRegex_def Many1_def lit_def
  not_space_at_def is_space_def

lemma validate_examples:
  "validateRecipient ann" "validateRecipient bob" "validateRecipient cyd" "\<not> validateRecipient malformed"
  by (simp_all add: rx_eval ann_def bob_def cyd_def malformed_def)

text \<open>The theorem at a list of two valid recipients with a malformed one between them.\<close>

theorem partition_total_stable_witness:
  "length (validRecipients [ann, malformed, bob]) + length (invalidRecipients [ann, malformed, bob]) = 3 \<and>
   malformed \<in> set (invalidRecipients [ann, malformed, bob]) \<and>
   malformed \<notin> set (validRecipients [ann, malformed, bob]) \<and>
   subseq (validRecipients [ann, malformed, bob]) [ann, malformed, bob]"
proof -
  have m: "malformed \<in> set [ann, malformed, bob]" by simp
  have d: "malformed \<noteq> ann" "malformed \<noteq> bob"
    by (simp_all add: ann_def bob_def malformed_def)
  have v: "malformed \<notin> set (validRecipients [ann, malformed, bob])"
    by (simp add: validRecipients_def validate_examples d)
  from partition_total_stable [of "[ann, malformed, bob]"] m v show ?thesis
    by auto
qed

section \<open>The send loop\<close>

text \<open>
  Claim C5.  When no recipient of a request passes the syntax validation, \<^verbatim>\<open>sendEmail\<close>
  throws the error \<^verbatim>\<open>No valid recipients provided\<close>; no SMTP client has been made and no
  message has been given to one.
\<close>

theorem no_valid_recipients_fails_before_smtp:
  assumes "\<forall>r\<in>set (to p). \<not> validateRecipient r"
  shows "sendEmail process_env sendAsync p =
           \<lparr>result = Inl (Error ''No valid recipients provided''), client = None, sent = []\<rparr>"
proof -
  from assms have "validRecipients (to p) = []"
    by (simp add: validRecipients_def)
  then show ?thesis
    by (simp add: sendEmail_def)
qed

text \<open>The theorem at a request whose only recipient is malformed.\<close>

theorem no_valid_recipients_fails_before_smtp_witness:
  "sendEmail Map.empty (\<lambda>h m. None) \<lparr>to = [malformed], subject = ''Hi'', html = ''Hello'', smtp = smtp0\<rparr> =
     \<lparr>result = Inl (Error ''No valid recipients provided''), client = None, sent = []\<rparr>"
proof -
  have "\<forall>r\<in>set (to \<lparr>to = [malformed], subject = ''Hi'', html = ''Hello'', smtp = smtp0\<rparr>). \<not> validateRecipient r"
    by (simp add: validate_examples)
  then show ?thesis
    by (rule no_valid_recipients_fails_before_smtp)
qed


lemma msg_to_make_message [simp]: "msg_to (make_message cfg subj bd r) = email r"
  by (simp add: make_message_def Let_def)

lemma send_loop_outcome:
  "send_loop tr cfg subj bd done rs = (e, ms) \<Longrightarrow>
   (e = None \<and> ms = done @ map (make_message cfg subj bd) rs \<and>
      (\<forall>ys r zs. rs = ys @ r # zs \<longrightarrow>
         tr (done @ map (make_message cfg subj bd) ys) (make_message cfg subj bd r) = None)) \<or>
   (\<exists>ys r zs. rs = ys @ r # zs \<and> e \<noteq> None \<and>
      tr (done @ map (make_message cfg subj bd) ys) (make_message cfg subj bd r) = e \<and>
      ms = done @ map (make_message cfg subj bd) (ys @ [r]) \<and>
      (\<forall>ys' r' zs'. ys = ys' @ r' # zs' \<longrightarrow>
         tr (done @ map (make_message cfg subj bd) ys') (make_message cfg subj bd r') = None))"
proof (induction rs arbitrary: "done")
  case Nil
  then show ?case by simp
next
  case (Cons a rs)
  let ?mk = "make_message cfg subj bd"
  show ?case
  proof (cases "tr done (?mk a)")
    case (Some err)
    with Cons.prems have "e = Some err" "ms = done @ [?mk a]"
      by (simp_all add: Let_def)
    with Some have "a # rs = [] @ a # rs \<and> e \<noteq> None \<and>
      tr (done @ map ?mk []) (?mk a) = e \<and> ms = done @ map ?mk ([] @ [a]) \<and>
      (\<forall>ys' r' zs'. [] = ys' @ r' # zs' \<longrightarrow> tr (done @ map ?mk ys') (?mk r') = None)"
      by simp
    then show ?thesis by blast
  next
    case None
    with Cons.prems have rec: "send_loop tr cfg subj bd (done @ [?mk a]) rs = (e, ms)"
      by (simp add: Let_def)
    have head: "\<And>ys r zs. a # rs = ys @ r # zs \<Longrightarrow>
        (ys = [] \<and> r = a \<and> zs = rs) \<or> (\<exists>ys'. ys = a # ys' \<and> rs = ys' @ r # zs)"
      by (auto simp: Cons_eq_append_conv)
    from Cons.IH [OF rec] show ?thesis
    proof
      assume ok: "e = None \<and> ms = (done @ [?mk a]) @ map ?mk rs \<and>
        (\<forall>ys r zs. rs = ys @ r # zs \<longrightarrow> tr ((done @ [?mk a]) @ map ?mk ys) (?mk r) = None)"
      have "\<forall>ys r zs. a # rs = ys @ r # zs \<longrightarrow> tr (done @ map ?mk ys) (?mk r) = None"
      proof (intro allI impI)
        fix ys r zs assume "a # rs = ys @ r # zs"
        from head [OF this] show "tr (done @ map ?mk ys) (?mk r) = None"
          using None ok by auto
      qed
      with ok show ?thesis by simp
    next
      assume "\<exists>ys r zs. rs = ys @ r # zs \<and> e \<noteq> None \<and>
        tr ((done @ [?mk a]) @ map ?mk ys) (?mk r) = e \<and>
        ms = (done @ [?mk a]) @ map ?mk (ys @ [r]) \<and>
        (\<forall>ys' r' zs'. ys = ys' @ r' # zs' \<longrightarrow> tr ((done @ [?mk a]) @ map ?mk ys') (?mk r') = None)"
      then obtain ys r zs where f: "rs = ys @ r # zs" "e \<noteq> None"
        "tr ((done @ [?mk a]) @ map ?mk ys) (?mk r) = e"
        "ms = (done @ [?mk a]) @ map ?mk (ys @ [r])"
        "\<forall>ys' r' zs'. ys = ys' @ r' # zs' \<longrightarrow> tr ((done @ [?mk a]) @ map ?mk ys') (?mk r') = None"
        by blast
      have "\<forall>ys' r' zs'. a # ys = ys' @ r' # zs' \<longrightarrow> tr (done @ map ?mk ys') (?mk r') = None"
      proof (intro allI impI)
        fix ys' r' zs' assume "a # ys = ys' @ r' # zs'"
        then have "(ys' = [] \<and> r' = a) \<or> (\<exists>ys''. ys' = a # ys'' \<and> ys = ys'' @ r' # zs')"
          by (auto simp: Cons_eq_append_conv)
        then show "tr (done @ map ?mk ys') (?mk r') = None"
          using None f(5) by auto
      qed
      with f have "a # rs = (a # ys) @ r # zs \<and> e \<noteq> None \<and>
        tr (done @ map ?mk (a # ys)) (?mk r) = e \<and> ms = done @ map ?mk ((a # ys) @ [r]) \<and>
        (\<forall>ys' r' zs'. a # ys = ys' @ r' # zs' \<longrightarrow> tr (done @ map ?mk ys') (?mk r') = None)"
        by simp
      then show ?thesis by blast
    qed
  qed
qed

text \<open>
  Claim C1, amended.  For a request with at least one valid recipient, \<^verbatim>\<open>sendEmail\<close>
  either returns, having given the client one message for every valid recipient in the
  order of the input, each send resolved; or it throws the value a send was rejected with:
  that send is the first one rejected and the last one made, the valid recipients behind
  it get no message.  No rejection is kept as an outcome of its recipient.
\<close>

theorem sendEmail_first_rejection_aborts:
  fixes p :: EmailParams and tr :: transport and process_env :: env
  defines "mk \<equiv> make_message (smtp p) (EmailParams.subject p) (html p)"
  defines "vs \<equiv> validRecipients (to p)"
  defines "out \<equiv> sendEmail process_env tr p"
  assumes "\<exists>r\<in>set (to p). validateRecipient r"
  shows "(result out = Inr () \<and> sent out = map mk vs \<and>
            (\<forall>ys r zs. vs = ys @ r # zs \<longrightarrow> tr (map mk ys) (mk r) = None)) \<or>
         (\<exists>ys r zs e. vs = ys @ r # zs \<and> result out = Inl e \<and>
            tr (map mk ys) (mk r) = Some e \<and> sent out = map mk (ys @ [r]) \<and>
            (\<forall>ys' r' zs'. ys = ys' @ r' # zs' \<longrightarrow> tr (map mk ys') (mk r') = None))"
proof -
  from assms(4) have ne: "length vs \<noteq> 0"
    by (auto simp: vs_def validRecipients_def filter_empty_conv)
  obtain e ms where loop: "send_loop tr (smtp p) (EmailParams.subject p) (html p) [] vs = (e, ms)"
    by (cases "send_loop tr (smtp p) (EmailParams.subject p) (html p) [] vs") blast
  from ne loop have out: "result out = (case e of Some x \<Rightarrow> Inl x | None \<Rightarrow> Inr ())" "sent out = ms"
    by (auto simp: out_def sendEmail_def vs_def Let_def split: option.splits)
  from send_loop_outcome [OF loop] show ?thesis
  proof
    assume "e = None \<and> ms = [] @ map (make_message (smtp p) (EmailParams.subject p) (html p)) vs \<and>
      (\<forall>ys r zs. vs = ys @ r # zs \<longrightarrow>
         tr ([] @ map (make_message (smtp p) (EmailParams.subject p) (html p)) ys)
            (make_message (smtp p) (EmailParams.subject p) (html p) r) = None)"
    with out show ?thesis by (simp add: mk_def)
  next
    assume "\<exists>ys r zs. vs = ys @ r # zs \<and> e \<noteq> None \<and>
      tr ([] @ map (make_message (smtp p) (EmailParams.subject p) (html p)) ys)
         (make_message (smtp p) (EmailParams.subject p) (html p) r) = e \<and>
      ms = [] @ map (make_message (smtp p) (EmailParams.subject p) (html p)) (ys @ [r]) \<and>
      (\<forall>ys' r' zs'. ys = ys' @ r' # zs' \<longrightarrow>
         tr ([] @ map (make_message (smtp p) (EmailParams.subject p) (html p)) ys')
            (make_message (smtp p) (EmailParams.subject p) (html p) r') = None)"
    then obtain ys r zs x where f: "vs = ys @ r # zs" "e = Some x"
      "tr (map mk ys) (mk r) = e" "ms = map mk (ys @ [r])"
      "\<forall>ys' r' zs'. ys = ys' @ r' # zs' \<longrightarrow> tr (map mk ys') (mk r') = None"
      unfolding mk_def by auto
    with out have "vs = ys @ r # zs \<and> result out = Inl x \<and>
            tr (map mk ys) (mk r) = Some x \<and> sent out = map mk (ys @ [r]) \<and>
            (\<forall>ys' r' zs'. ys = ys' @ r' # zs' \<longrightarrow> tr (map mk ys') (mk r') = None)"
      by simp
    then show ?thesis by blast
  qed
qed

text \<open>
  The theorem at three valid recipients where the server rejects the second: the call
  throws that rejection.
\<close>

theorem sendEmail_first_rejection_aborts_witness:
  "(\<exists>r\<in>set (to three_valid). validateRecipient r) \<and>
   result (sendEmail Map.empty reject_bob three_valid) = Inl (Error ''550 mailbox unavailable'')"
proof -
  let ?mk = "make_message (smtp three_valid) (EmailParams.subject three_valid) (html three_valid)"
  have v: "\<exists>r\<in>set (to three_valid). validateRecipient r"
    by (auto simp: three_valid_def validate_examples)
  have vs: "validRecipients (to three_valid) = [ann] @ bob # [cyd]"
    by (simp add: three_valid_def validRecipients_def validate_examples)
  have rej: "reject_bob (map ?mk [ann]) (?mk bob) = Some (Error ''550 mailbox unavailable'')"
    by (simp add: reject_bob_def bob_def)
  have only: "\<And>h m e. reject_bob h m = Some e \<Longrightarrow> e = Error ''550 mailbox unavailable''"
    by (simp add: reject_bob_def split: if_splits)
  from sendEmail_first_rejection_aborts [OF v, where tr = reject_bob and process_env = Map.empty]
  have "result (sendEmail Map.empty reject_bob three_valid) = Inl (Error ''550 mailbox unavailable'')"
  proof
    assume "result (sendEmail Map.empty reject_bob three_valid) = Inr () \<and>
      sent (sendEmail Map.empty reject_bob three_valid) = map ?mk (validRecipients (to three_valid)) \<and>
      (\<forall>ys r zs. validRecipients (to three_valid) = ys @ r # zs \<longrightarrow> reject_bob (map ?mk ys) (?mk r) = None)"
    with vs have "reject_bob (map ?mk [ann]) (?mk bob) = None" by blast
    with rej show ?thesis by simp
  next
    assume "\<exists>ys r zs e. validRecipients (to three_valid) = ys @ r # zs \<and>
      result (sendEmail Map.empty reject_bob three_valid) = Inl e \<and>
      reject_bob (map ?mk ys) (?mk r) = Some e \<and>
      sent (sendEmail Map.empty reject_bob three_valid) = map ?mk (ys @ [r]) \<and>
      (\<forall>ys' r' zs'. ys = ys' @ r' # zs' \<longrightarrow> reject_bob (map ?mk ys') (?mk r') = None)"
    then show ?thesis using only by blast
  qed
  with v show ?thesis by blast
qed

text \<open>
  Claim C1 as stated fails: with three valid recipients and the second send rejected, the
  rejection is thrown, and the third recipient gets no message.
\<close>

theorem sendEmail_rejection_is_thrown:
  "result (sendEmail Map.empty reject_bob three_valid) = Inl (Error ''550 mailbox unavailable'') \<and>
   map msg_to (sent (sendEmail Map.empty reject_bob three_valid)) = [''ann@x.com'', ''bob@x.com'']"
proof -
  have vs: "validRecipients (to three_valid) = [ann, bob, cyd]"
    by (simp add: three_valid_def validRecipients_def validate_examples)
  have "send_loop reject_bob (smtp three_valid) (EmailParams.subject three_valid) (html three_valid) [] [ann, bob, cyd] =
      (Some (Error ''550 mailbox unavailable''),
       [make_message (smtp three_valid) (EmailParams.subject three_valid) (html three_valid) ann,
        make_message (smtp three_valid) (EmailParams.subject three_valid) (html three_valid) bob])"
    by (simp add: reject_bob_def Let_def ann_def bob_def)
  then show ?thesis
    by (simp add: sendEmail_def vs Let_def ann_def bob_def)
qed


section \<open>The handler\<close>

lemma validateEmailRequest_Inr:
  "validateEmailRequest req = Inr b \<Longrightarrow> raw_recipients req = Some (recipients b)"
  by (auto simp: validateEmailRequest_def split: option.splits if_splits port_field.splits)

lemma error_response_fails: "\<not> success (error_response process_env e)"
  by (cases e) (simp_all add: error_response_def Let_def)

lemma trim_examples: "trim ''Hi'' = ''Hi''" "trim ''Hello'' = ''Hello''"
  by (simp_all add: trim_def is_space_def)

lemma validateEmailRequest_request_to:
  "rs \<noteq> [] \<Longrightarrow> validateEmailRequest (request_to rs) =
     Inr \<lparr>recipients = rs, subject = ''Hi'', body = ''Hello'',
          smtpConfig = \<lparr>SmtpConfigValidation.host = ''smtp.x.com'', port = 587, username = ''u'',
                         password = ''p'', secure = False, fromEmail = ''me@x.com'',
                         fromName = ''Me''\<rparr>\<rparr>"
  by (simp add: validateEmailRequest_def request_to_def raw_smtp0_def trim_examples)

text \<open>
  Claim C10.  When the handler answers with success, the message of the answer is
  \<^verbatim>\<open>Email sent successfully to N recipient(s)\<close> with \<open>N\<close> the number of all recipients of the
  request, while messages were given to the SMTP client for the valid recipients only.
\<close>

theorem success_message_counts_all_recipients:
  assumes "sendEmailHandler process_env tr req = (resp, ms)" and "success resp"
  shows "\<exists>rs. raw_recipients req = Some rs \<and> status resp = 200 \<and>
           message resp = ''Email sent successfully to '' @ string_of_nat (length rs) @ '' recipient(s)'' \<and>
           map msg_to ms = map email (validRecipients rs)"
proof (cases "validateEmailRequest req")
  case (Inl e)
  with assms show ?thesis
    by (auto simp: sendEmailHandler_def error_response_fails)
next
  case (Inr b)
  let ?p = "\<lparr>to = recipients b, subject = EmailRequestBody.subject b, html = body b,
             smtp = \<lparr>SmtpConfig.host = SmtpConfigValidation.host (smtpConfig b),
                     port = SmtpConfigValidation.port (smtpConfig b),
                     user = username (smtpConfig b),
                     password = SmtpConfigValidation.password (smtpConfig b),
                     secure = SmtpConfigValidation.secure (smtpConfig b),
                     fromEmail = SmtpConfigValidation.fromEmail (smtpConfig b),
                     fromName = SmtpConfigValidation.fromName (smtpConfig b)\<rparr>\<rparr>"
  let ?out = "sendEmail process_env tr ?p"
  from Inr have rs: "raw_recipients req = Some (recipients b)"
    by (rule validateEmailRequest_Inr)
  from assms Inr have ok: "result ?out = Inr ()"
    by (auto simp: sendEmailHandler_def Let_def error_response_fails split: sum.splits)
  with assms Inr have resp: "resp = \<lparr>status = 200, success = True,
        message = ''Email sent successfully to '' @ string_of_nat (length (recipients b)) @ '' recipient(s)'',
        error = None\<rparr>" and ms: "ms = sent ?out"
    by (auto simp: sendEmailHandler_def Let_def split: sum.splits)
  from ok have ne: "length (validRecipients (recipients b)) \<noteq> 0"
    by (auto simp: sendEmail_def split: if_splits)
  obtain e l where loop: "send_loop tr (smtp ?p) (EmailParams.subject ?p) (html ?p) [] (validRecipients (recipients b)) = (e, l)"
    by (cases "send_loop tr (smtp ?p) (EmailParams.subject ?p) (html ?p) [] (validRecipients (recipients b))") blast
  with ok ne have "e = None" "sent ?out = l"
    by (auto simp: sendEmail_def Let_def split: option.splits)
  with send_loop_outcome [OF loop]
  have "sent ?out = map (make_message (smtp ?p) (EmailParams.subject ?p) (html ?p)) (validRecipients (recipients b))"
    by auto
  then have "map msg_to ms = map email (validRecipients (recipients b))"
    by (simp add: ms comp_def)
  with rs resp show ?thesis by simp
qed

text \<open>The theorem at a request with one valid and one malformed recipient: the message
  counts two recipients, one message was sent.\<close>

theorem success_message_counts_all_recipients_witness:
  "success (fst (sendEmailHandler Map.empty accept_all (request_to [ann, malformed]))) \<and>
   message (fst (sendEmailHandler Map.empty accept_all (request_to [ann, malformed]))) =
     ''Email sent successfully to 2 recipient(s)'' \<and>
   map msg_to (snd (sendEmailHandler Map.empty accept_all (request_to [ann, malformed]))) = [''ann@x.com'']"
proof -
  obtain resp ms where h: "sendEmailHandler Map.empty accept_all (request_to [ann, malformed]) = (resp, ms)"
    by (cases "sendEmailHandler Map.empty accept_all (request_to [ann, malformed])") blast
  have vs: "validRecipients [ann, malformed] = [ann]"
    by (simp add: validRecipients_def validate_examples)
  have "success (fst (sendEmailHandler Map.empty accept_all (request_to [ann, malformed])))"
    by (simp add: sendEmailHandler_def validateEmailRequest_request_to sendEmail_def vs Let_def
        accept_all_def)
  with h have s: "success resp" by simp
  have two: "string_of_nat (length [ann, malformed]) = ''2''"
    by (simp add: string_of_nat.simps digit_char_def)
  have rr: "raw_recipients (request_to [ann, malformed]) = Some [ann, malformed]"
    by (simp add: request_to_def)
  from success_message_counts_all_recipients [OF h s] rr two vs
  have "message resp = ''Email sent successfully to 2 recipient(s)'' \<and> map msg_to ms = [''ann@x.com'']"
    by (auto simp: ann_def)
  with h s show ?thesis by simp
qed

text \<open>
  Claim C2 on the code: a request whose only recipient is malformed is answered with
  status 500 and the message \<^verbatim>\<open>Failed to send email\<close>, and a rejection by the SMTP server
  whose text holds the word \<^verbatim>\<open>required\<close> is answered with status 400.
\<close>

theorem no_valid_recipients_is_answered_500:
  "fst (sendEmailHandler Map.empty accept_all (request_to [malformed])) =
     \<lparr>status = 500, success = False, message = ''Failed to send email'', error = None\<rparr> \<and>
   fst (sendEmailHandler Map.empty reject_auth (request_to [ann])) =
     \<lparr>status = 400, success = False, message = ''530 authentication required'', error = None\<rparr>"
proof -
  have v: "validRecipients [malformed] = []" "validRecipients [ann] = [ann]"
    by (simp_all add: validRecipients_def validate_examples)
  have a: "fst (sendEmailHandler Map.empty accept_all (request_to [malformed])) =
     \<lparr>status = 500, success = False, message = ''Failed to send email'', error = None\<rparr>"
    by (simp add: sendEmailHandler_def validateEmailRequest_request_to sendEmail_def v Let_def
        error_response_def)
  have b: "fst (sendEmailHandler Map.empty reject_auth (request_to [ann])) =
     \<lparr>status = 400, success = False, message = ''530 authentication required'', error = None\<rparr>"
    by (simp add: sendEmailHandler_def validateEmailRequest_request_to sendEmail_def v Let_def
        error_response_def reject_auth_def)
  from a b show ?thesis by blast
qed

text \<open>
  Claim C3 on the code: with no variable set in the environment, and with the variables of
  \<^verbatim>\<open>.env.example\<close> (\<^verbatim>\<open>NODE_ENV=development\<close>, \<^verbatim>\<open>TLS_REJECT_UNAUTHORIZED=true\<close>), the SMTP
  client is made with \<^verbatim>\<open>rejectUnauthorized\<close> false.
\<close>

theorem tls_validation_off_unless_production:
  "map_option tls_rejectUnauthorized (client (sendEmail Map.empty accept_all one_valid)) = Some False \<and>
   map_option tls_rejectUnauthorized
     (client (sendEmail [''NODE_ENV'' \<mapsto> ''development'', ''TLS_REJECT_UNAUTHORIZED'' \<mapsto> ''true'']
        accept_all one_valid)) = Some False"
proof -
  have v: "validRecipients (to one_valid) = [ann]"
    by (simp add: one_valid_def validRecipients_def validate_examples)
  show ?thesis
    by (simp add: sendEmail_def v Let_def accept_all_def)
qed


section \<open>Replacing the placeholder tokens\<close>

lemma rx_match_token:
  "rx_match (map lit_ci tok) s = (if ci_prefix tok s then Some (drop (length tok) s) else None)"
proof (induction tok s rule: ci_prefix.induct)
  case (1 s)
  then show ?case by simp
next
  case (2 c cs)
  then show ?case by (simp add: lit_ci_def)
next
  case (3 c cs x xs)
  then show ?case by (simp add: lit_ci_def)
qed

lemma ci_prefix_length: "ci_prefix tok s \<Longrightarrow> length tok \<le> length s"
  by (induction tok s rule: ci_prefix.induct) auto

lemma ci_prefix_Nil: "ci_prefix tok [] \<longleftrightarrow> tok = []"
  by (cases tok) simp_all

lemma replace_from_Nil: "tok \<noteq> [] \<Longrightarrow> replace_from (map lit_ci tok) repl passed [] = []"
  by (simp add: replace_from.simps [of _ _ _ "[]"] rx_match_token ci_prefix_Nil)

lemma replace_from_miss:
  "\<not> ci_prefix tok (x # xs) \<Longrightarrow>
   replace_from (map lit_ci tok) repl passed (x # xs) =
     x # replace_from (map lit_ci tok) repl (passed @ [x]) xs"
  by (simp add: replace_from.simps [of _ _ _ "x # xs"] rx_match_token)

lemma replace_from_hit:
  assumes "ci_prefix tok s" and "tok \<noteq> []"
  shows "replace_from (map lit_ci tok) repl passed s =
     get_substitution (take (length tok) s) passed (drop (length tok) s) repl @
     replace_from (map lit_ci tok) repl (passed @ take (length tok) s) (drop (length tok) s)"
proof -
  from assms have n: "length tok \<le> length s" "0 < length tok"
    by (simp_all add: ci_prefix_length)
  then have "length s - length (drop (length tok) s) = length tok" by simp
  moreover from n have "take (length tok) s \<noteq> []" by auto
  ultimately show ?thesis
    using assms by (simp add: replace_from.simps [of _ _ _ s] rx_match_token Let_def)
qed

lemma replace_from_absent:
  "\<not> ci_occurs tok s \<Longrightarrow> replace_from (map lit_ci tok) repl passed s = s"
proof (induction s arbitrary: passed)
  case Nil
  then have "tok \<noteq> []" by auto
  then show ?case by (rule replace_from_Nil)
next
  case (Cons x xs)
  then show ?case by (simp add: replace_from_miss)
qed

lemma replace_all_absent:
  "\<not> ci_occurs tok s \<Longrightarrow> replace_all (map lit_ci tok) repl s = s"
  by (simp add: replace_all_def replace_from_absent)

lemma get_substitution_plain:
  "CHR ''$'' \<notin> set repl \<Longrightarrow> get_substitution m p a repl = repl"
  by (induction m p a repl rule: get_substitution.induct) auto

text \<open>What \<open>ci_occurs\<close> says.\<close>

lemma ci_prefix_iff:
  "ci_prefix tok s \<longleftrightarrow> (\<exists>v w. s = v @ w \<and> map canonicalize v = map canonicalize tok)"
proof (induction tok s rule: ci_prefix.induct)
  case (1 s)
  then show ?case by simp
next
  case (2 c cs)
  then show ?case by simp
next
  case (3 c cs x xs)
  show ?case
  proof
    assume "ci_prefix (c # cs) (x # xs)"
    with 3 obtain v w where "canonicalize x = canonicalize c" "xs = v @ w"
      "map canonicalize v = map canonicalize cs" by auto
    then have "x # xs = (x # v) @ w \<and> map canonicalize (x # v) = map canonicalize (c # cs)"
      by simp
    then show "\<exists>v w. x # xs = v @ w \<and> map canonicalize v = map canonicalize (c # cs)"
      by blast
  next
    assume "\<exists>v w. x # xs = v @ w \<and> map canonicalize v = map canonicalize (c # cs)"
    then obtain v w where vw: "x # xs = v @ w" "map canonicalize v = map canonicalize (c # cs)"
      by blast
    then obtain v' where "v = x # v'" by (cases v) auto
    with vw 3 show "ci_prefix (c # cs) (x # xs)" by auto
  qed
qed

lemma ci_occurs_iff:
  "ci_occurs tok s \<longleftrightarrow> (\<exists>u v w. s = u @ v @ w \<and> map canonicalize v = map canonicalize tok)"
proof (induction s)
  case Nil
  then show ?case by (simp add: ci_prefix_iff)
next
  case (Cons x xs)
  show ?case
  proof
    assume "ci_occurs tok (x # xs)"
    then consider "ci_prefix tok (x # xs)" | "ci_occurs tok xs" by auto
    then show "\<exists>u v w. x # xs = u @ v @ w \<and> map canonicalize v = map canonicalize tok"
    proof cases
      case 1
      then obtain v w where "x # xs = [] @ v @ w \<and> map canonicalize v = map canonicalize tok"
        by (auto simp: ci_prefix_iff)
      then show ?thesis by blast
    next
      case 2
      with Cons obtain u v w where "xs = u @ v @ w" "map canonicalize v = map canonicalize tok"
        by blast
      then have "x # xs = (x # u) @ v @ w \<and> map canonicalize v = map canonicalize tok" by simp
      then show ?thesis by blast
    qed
  next
    assume "\<exists>u v w. x # xs = u @ v @ w \<and> map canonicalize v = map canonicalize tok"
    then obtain u v w where uvw: "x # xs = u @ v @ w" "map canonicalize v = map canonicalize tok"
      by blast
    show "ci_occurs tok (x # xs)"
    proof (cases u)
      case Nil
      with uvw have "ci_prefix tok (x # xs)" by (auto simp: ci_prefix_iff)
      then show ?thesis by simp
    next
      case (Cons y ys)
      with uvw have "xs = ys @ v @ w" by simp
      with uvw Cons.IH have "ci_occurs tok xs" by blast
      then show ?thesis by simp
    qed
  qed
qed

lemma replaceVariables_fold:
  "replaceVariables t r = fold (\<lambda>(tok, field) s. replace_all (map lit_ci tok) (field r) s) placeholders t"
  by (simp add: replaceVariables_def placeholders_def first_name_rx_def last_name_rx_def
      email_rx_def company_rx_def)

text \<open>
  Claim C8.  A template in which none of the four tokens occurs, in whatever letter case,
  is rendered as itself for every recipient; and rendering is a function of the template
  and the recipient.
\<close>

theorem replaceVariables_without_token:
  assumes "\<not> ci_occurs ''[first_name]'' t" and "\<not> ci_occurs ''[last_name]'' t"
    and "\<not> ci_occurs ''[email]'' t" and "\<not> ci_occurs ''[company]'' t"
  shows "replaceVariables t r = t \<and>
         (\<forall>t' r'. t' = t \<and> r' = r \<longrightarrow> replaceVariables t' r' = replaceVariables t r)"
proof -
  from assms have "replaceVariables t r = t"
    unfolding replaceVariables_def first_name_rx_def last_name_rx_def email_rx_def company_rx_def
    by (simp only: replace_all_absent not_False_eq_True)
  then show ?thesis by simp
qed

text \<open>The theorem at a template with a bracket sequence that is no token.\<close>

theorem replaceVariables_without_token_witness:
  "\<not> ci_occurs ''[first_name]'' ''Hello [name]!'' \<and> \<not> ci_occurs ''[last_name]'' ''Hello [name]!'' \<and>
   \<not> ci_occurs ''[email]'' ''Hello [name]!'' \<and> \<not> ci_occurs ''[company]'' ''Hello [name]!'' \<and>
   replaceVariables ''Hello [name]!'' ann = ''Hello [name]!''"
proof -
  have n: "\<not> ci_occurs ''[first_name]'' ''Hello [name]!''" "\<not> ci_occurs ''[last_name]'' ''Hello [name]!''"
    "\<not> ci_occurs ''[email]'' ''Hello [name]!''" "\<not> ci_occurs ''[company]'' ''Hello [name]!''"
    by (simp_all add: canonicalize_def)
  from replaceVariables_without_token [OF n, of ann] n show ?thesis
    by blast
qed

lemma canonicalize_bracket:
  "canonicalize x = canonicalize CHR ''['' \<longleftrightarrow> x = CHR ''[''"
  "canonicalize x = canonicalize CHR '']'' \<longleftrightarrow> x = CHR '']''"
proof -
  have "of_char CHR ''['' = (91::nat)" "of_char CHR '']'' = (93::nat)" by simp_all
  then have "x = CHR ''['' \<longleftrightarrow> of_char x = (91::nat)" "x = CHR '']'' \<longleftrightarrow> of_char x = (93::nat)"
    by (metis of_char_eq_iff)+
  then show "canonicalize x = canonicalize CHR ''['' \<longleftrightarrow> x = CHR ''[''"
    "canonicalize x = canonicalize CHR '']'' \<longleftrightarrow> x = CHR '']''"
    by (auto simp: canonicalize_def Let_def)
qed


lemma ci_prefix_open: "ci_prefix (CHR ''['' # b) s \<Longrightarrow> \<exists>s'. s = CHR ''['' # s'"
  by (cases s) (simp_all add: canonicalize_bracket)

lemma no_open_no_occurrence: "CHR ''['' \<notin> set s \<Longrightarrow> \<not> ci_occurs (CHR ''['' # b) s"
proof (induction s)
  case Nil
  then show ?case by simp
next
  case (Cons x xs)
  then have "\<not> ci_prefix (CHR ''['' # b) (x # xs)"
    using ci_prefix_open by fastforce
  with Cons show ?case by simp
qed

lemma ci_occurs_skip:
  "CHR ''['' \<notin> set u \<Longrightarrow> ci_occurs (CHR ''['' # b) (u @ s) = ci_occurs (CHR ''['' # b) s"
proof (induction u)
  case Nil
  then show ?case by simp
next
  case (Cons x xs)
  then have "\<not> ci_prefix (CHR ''['' # b) (x # xs @ s)"
    using ci_prefix_open by fastforce
  with Cons show ?case by auto
qed

lemma replace_from_skip:
  "CHR ''['' \<notin> set u \<Longrightarrow>
   replace_from (map lit_ci (CHR ''['' # b)) repl passed (u @ s) =
     u @ replace_from (map lit_ci (CHR ''['' # b)) repl (passed @ u) s"
proof (induction u arbitrary: passed)
  case Nil
  then show ?case by simp
next
  case (Cons x xs)
  then have "\<not> ci_prefix (CHR ''['' # b) (x # xs @ s)"
    using ci_prefix_open by fastforce
  then have "replace_from (map lit_ci (CHR ''['' # b)) repl passed (x # xs @ s) =
      x # replace_from (map lit_ci (CHR ''['' # b)) repl (passed @ [x]) (xs @ s)"
    by (rule replace_from_miss)
  with Cons show ?case by simp
qed

lemma ci_prefix_cong:
  "map canonicalize s = map canonicalize s' \<Longrightarrow> ci_prefix tok s = ci_prefix tok s'"
proof (induction tok s arbitrary: s' rule: ci_prefix.induct)
  case (1 s)
  then show ?case by simp
next
  case (2 c cs)
  then show ?case by simp
next
  case (3 c cs x xs)
  then obtain y ys where "s' = y # ys" by (cases s') auto
  with 3 show ?case by auto
qed

lemma ci_occurs_cong:
  "map canonicalize s = map canonicalize s' \<Longrightarrow> ci_occurs tok s = ci_occurs tok s'"
proof (induction s arbitrary: s')
  case Nil
  then show ?case by simp
next
  case (Cons x xs)
  then obtain y ys where s': "s' = y # ys" by (cases s') auto
  with Cons.prems have "ci_prefix tok (x # xs) = ci_prefix tok (y # ys)"
    using ci_prefix_cong by blast
  moreover from Cons s' have "ci_occurs tok xs = ci_occurs tok ys" by auto
  ultimately show ?case by (simp add: s')
qed

lemma variant_prefix:
  assumes "map canonicalize v = map canonicalize tok"
  shows "ci_prefix tok (v @ w)" and "length v = length tok"
proof -
  from assms show "ci_prefix tok (v @ w)"
    unfolding ci_prefix_iff by blast
  from assms have "length (map canonicalize v) = length (map canonicalize tok)" by simp
  then show "length v = length tok" by simp
qed

lemma replace_single:
  assumes "map canonicalize v = map canonicalize (CHR ''['' # b)"
    and "CHR ''['' \<notin> set u" and "CHR ''['' \<notin> set w" and "CHR ''$'' \<notin> set val"
  shows "replace_all (map lit_ci (CHR ''['' # b)) val (u @ v @ w) = u @ val @ w"
proof -
  let ?rx = "map lit_ci (CHR ''['' # b)"
  have "replace_from ?rx val [] (u @ v @ w) = u @ replace_from ?rx val ([] @ u) (v @ w)"
    using assms(2) by (rule replace_from_skip)
  also have "replace_from ?rx val ([] @ u) (v @ w) =
      get_substitution (take (length (CHR ''['' # b)) (v @ w)) ([] @ u) (drop (length (CHR ''['' # b)) (v @ w)) val @
      replace_from ?rx val (([] @ u) @ take (length (CHR ''['' # b)) (v @ w)) (drop (length (CHR ''['' # b)) (v @ w))"
    using variant_prefix(1) [OF assms(1)] by (rule replace_from_hit) simp
  also have "\<dots> = val @ replace_from ?rx val (u @ v) w"
    using variant_prefix(2) [OF assms(1)] assms(4) by (simp add: get_substitution_plain)
  also have "replace_from ?rx val (u @ v) w = w"
    by (rule replace_from_absent [OF no_open_no_occurrence [OF assms(3)]])
  finally show ?thesis by (simp add: replace_all_def)
qed

lemma other_token_absent:
  assumes "map canonicalize v = map canonicalize tok"
    and "CHR ''['' \<notin> set u"
    and "\<not> ci_occurs (CHR ''['' # b) (tok @ w)"
  shows "\<not> ci_occurs (CHR ''['' # b) (u @ v @ w)"
proof -
  from assms(1) have "map canonicalize (v @ w) = map canonicalize (tok @ w)" by simp
  then have "ci_occurs (CHR ''['' # b) (v @ w) = ci_occurs (CHR ''['' # b) (tok @ w)"
    by (rule ci_occurs_cong)
  with assms(2,3) show ?thesis by (simp add: ci_occurs_skip)
qed

lemma tokens_distinct:
  assumes "CHR ''['' \<notin> set w"
  shows "\<not> ci_occurs ''[first_name]'' (''[last_name]'' @ w)"
    and "\<not> ci_occurs ''[first_name]'' (''[email]'' @ w)"
    and "\<not> ci_occurs ''[first_name]'' (''[company]'' @ w)"
    and "\<not> ci_occurs ''[last_name]'' (''[email]'' @ w)"
    and "\<not> ci_occurs ''[last_name]'' (''[company]'' @ w)"
    and "\<not> ci_occurs ''[email]'' (''[company]'' @ w)"
  using assms by (simp_all add: canonicalize_def no_open_no_occurrence)

lemma render_first_name:
  assumes "map canonicalize v = map canonicalize ''[first_name]''"
    and "CHR ''['' \<notin> set u" and "CHR ''['' \<notin> set w"
    and "CHR ''$'' \<notin> set (or_empty (firstName r))"
    and "\<not> ci_occurs ''[last_name]'' (u @ or_empty (firstName r) @ w)"
    and "\<not> ci_occurs ''[email]'' (u @ or_empty (firstName r) @ w)"
    and "\<not> ci_occurs ''[company]'' (u @ or_empty (firstName r) @ w)"
  shows "replaceVariables (u @ v @ w) r = u @ or_empty (firstName r) @ w"
proof -
  have "replace_all first_name_rx (or_empty (firstName r)) (u @ v @ w) = u @ or_empty (firstName r) @ w"
    unfolding first_name_rx_def using assms(1-4) by (rule replace_single)
  with assms(5-7) show ?thesis
    unfolding replaceVariables_def last_name_rx_def email_rx_def company_rx_def
    by (simp only: replace_all_absent not_False_eq_True)
qed

lemma render_last_name:
  assumes "map canonicalize v = map canonicalize ''[last_name]''"
    and "CHR ''['' \<notin> set u" and "CHR ''['' \<notin> set w"
    and "CHR ''$'' \<notin> set (or_empty (lastName r))"
    and "\<not> ci_occurs ''[email]'' (u @ or_empty (lastName r) @ w)"
    and "\<not> ci_occurs ''[company]'' (u @ or_empty (lastName r) @ w)"
  shows "replaceVariables (u @ v @ w) r = u @ or_empty (lastName r) @ w"
proof -
  have "\<not> ci_occurs ''[first_name]'' (u @ v @ w)"
    using assms(1,2) tokens_distinct(1) [OF assms(3)] by (rule other_token_absent)
  then have "replace_all first_name_rx (or_empty (firstName r)) (u @ v @ w) = u @ v @ w"
    unfolding first_name_rx_def by (rule replace_all_absent)
  moreover have "replace_all last_name_rx (or_empty (lastName r)) (u @ v @ w) = u @ or_empty (lastName r) @ w"
    unfolding last_name_rx_def using assms(1-4) by (rule replace_single)
  ultimately show ?thesis
    using assms(5,6)
    unfolding replaceVariables_def email_rx_def company_rx_def
    by (simp only: replace_all_absent not_False_eq_True)
qed

lemma render_email:
  assumes "map canonicalize v = map canonicalize ''[email]''"
    and "CHR ''['' \<notin> set u" and "CHR ''['' \<notin> set w"
    and "CHR ''$'' \<notin> set (email r)"
    and "\<not> ci_occurs ''[company]'' (u @ email r @ w)"
  shows "replaceVariables (u @ v @ w) r = u @ email r @ w"
proof -
  have "\<not> ci_occurs ''[first_name]'' (u @ v @ w)"
    using assms(1,2) tokens_distinct(2) [OF assms(3)] by (rule other_token_absent)
  then have "replace_all first_name_rx (or_empty (firstName r)) (u @ v @ w) = u @ v @ w"
    unfolding first_name_rx_def by (rule replace_all_absent)
  moreover have "\<not> ci_occurs ''[last_name]'' (u @ v @ w)"
    using assms(1,2) tokens_distinct(4) [OF assms(3)] by (rule other_token_absent)
  then have "replace_all last_name_rx (or_empty (lastName r)) (u @ v @ w) = u @ v @ w"
    unfolding last_name_rx_def by (rule replace_all_absent)
  moreover have "replace_all email_rx (email r) (u @ v @ w) = u @ email r @ w"
    unfolding email_rx_def using assms(1-4) by (rule replace_single)
  ultimately show ?thesis
    using assms(5)
    unfolding replaceVariables_def company_rx_def
    by (simp only: replace_all_absent not_False_eq_True)
qed

lemma render_company:
  assumes "map canonicalize v = map canonicalize ''[company]''"
    and "CHR ''['' \<notin> set u" and "CHR ''['' \<notin> set w"
    and "CHR ''$'' \<notin> set (or_empty (company r))"
  shows "replaceVariables (u @ v @ w) r = u @ or_empty (company r) @ w"
proof -
  have "\<not> ci_occurs ''[first_name]'' (u @ v @ w)"
    using assms(1,2) tokens_distinct(3) [OF assms(3)] by (rule other_token_absent)
  then have "replace_all first_name_rx (or_empty (firstName r)) (u @ v @ w) = u @ v @ w"
    unfolding first_name_rx_def by (rule replace_all_absent)
  moreover have "\<not> ci_occurs ''[last_name]'' (u @ v @ w)"
    using assms(1,2) tokens_distinct(5) [OF assms(3)] by (rule other_token_absent)
  then have "replace_all last_name_rx (or_empty (lastName r)) (u @ v @ w) = u @ v @ w"
    unfolding last_name_rx_def by (rule replace_all_absent)
  moreover have "\<not> ci_occurs ''[email]'' (u @ v @ w)"
    using assms(1,2) tokens_distinct(6) [OF assms(3)] by (rule other_token_absent)
  then have "replace_all email_rx (email r) (u @ v @ w) = u @ v @ w"
    unfolding email_rx_def by (rule replace_all_absent)
  moreover have "replace_all company_rx (or_empty (company r)) (u @ v @ w) = u @ or_empty (company r) @ w"
    unfolding company_rx_def using assms(1-4) by (rule replace_single)
  ultimately show ?thesis
    unfolding replaceVariables_def by (simp only:)
qed


section \<open>Templates of several pieces\<close>

lemma ci_prefix_within:
  "CHR '']'' \<notin> set b \<Longrightarrow> CHR '']'' \<in> set s \<Longrightarrow> ci_prefix (b @ '']'') (s @ y)
     \<Longrightarrow> ci_prefix (b @ '']'') s"
proof (induction b arbitrary: s)
  case Nil
  then obtain c s' where "s = c # s'" by (cases s) auto
  with Nil show ?case by simp
next
  case (Cons d b)
  then obtain c s' where s: "s = c # s'" by (cases s) auto
  with Cons.prems have c: "canonicalize c = canonicalize d" and rest: "ci_prefix (b @ '']'') (s' @ y)"
    by simp_all
  from Cons.prems have "d \<noteq> CHR '']''" by auto
  with c have "c \<noteq> CHR '']''"
    using canonicalize_bracket(2) by metis
  with Cons.prems s have "CHR '']'' \<in> set s'" by simp
  with Cons.IH [of s'] Cons.prems rest have "ci_prefix (b @ '']'') s'" by simp
  with c s show ?case by simp
qed

lemma closed_text_skip:
  assumes "CHR '']'' \<notin> set b"
  shows "brackets_closed s \<Longrightarrow> \<not> ci_occurs (CHR ''['' # b @ '']'') s \<Longrightarrow>
    replace_from (map lit_ci (CHR ''['' # b @ '']'')) val passed (s @ y) =
      s @ replace_from (map lit_ci (CHR ''['' # b @ '']'')) val (passed @ s) y"
proof (induction s arbitrary: passed)
  case Nil
  then show ?case by simp
next
  case (Cons x xs)
  have "\<not> ci_prefix (CHR ''['' # b @ '']'') (x # xs @ y)"
  proof
    assume hit: "ci_prefix (CHR ''['' # b @ '']'') (x # xs @ y)"
    then have x: "x = CHR ''[''" and tl: "ci_prefix (b @ '']'') (xs @ y)"
      by (simp_all add: canonicalize_bracket)
    with Cons.prems(1) have cl: "CHR '']'' \<in> set xs" by simp
    from assms cl tl have "ci_prefix (b @ '']'') xs" by (rule ci_prefix_within)
    with x have "ci_prefix (CHR ''['' # b @ '']'') (x # xs)" by simp
    with Cons.prems(2) show False by simp
  qed
  then have "replace_from (map lit_ci (CHR ''['' # b @ '']'')) val passed (x # xs @ y) =
      x # replace_from (map lit_ci (CHR ''['' # b @ '']'')) val (passed @ [x]) (xs @ y)"
    by (rule replace_from_miss)
  moreover from Cons.prems have "brackets_closed xs" "\<not> ci_occurs (CHR ''['' # b @ '']'') xs"
    by simp_all
  ultimately show ?case
    using Cons.IH [of "passed @ [x]"] by simp
qed

lemma brackets_closed_snoc: "brackets_closed (s @ '']'')"
  by (induction s) auto

lemma variant_closed:
  assumes "map canonicalize v = map canonicalize (t @ '']'')"
  shows "brackets_closed v"
proof -
  from assms have "v \<noteq> []" by auto
  then obtain v' c where v: "v = v' @ [c]" by (metis rev_exhaust)
  with assms have "canonicalize c = canonicalize CHR '']''"
    by (metis last_map last_snoc map_is_Nil_conv snoc_eq_iff_butlast)
  then have "c = CHR '']''" by (simp add: canonicalize_bracket)
  with v show ?thesis by (simp add: brackets_closed_snoc)
qed

text \<open>Facts about the table of the four tokens.\<close>

lemma table_token_shape:
  assumes "(tok, f) \<in> set placeholders"
  shows "\<exists>b. tok = CHR ''['' # b @ '']'' \<and> CHR '']'' \<notin> set b"
proof -
  from assms consider "tok = ''[first_name]''" | "tok = ''[last_name]''" | "tok = ''[email]''"
    | "tok = ''[company]''"
    by (auto simp: placeholders_def)
  then show ?thesis
  proof cases
    case 1
    then have "tok = CHR ''['' # ''first_name'' @ '']'' \<and> CHR '']'' \<notin> set ''first_name''" by simp
    then show ?thesis by blast
  next
    case 2
    then have "tok = CHR ''['' # ''last_name'' @ '']'' \<and> CHR '']'' \<notin> set ''last_name''" by simp
    then show ?thesis by blast
  next
    case 3
    then have "tok = CHR ''['' # ''email'' @ '']'' \<and> CHR '']'' \<notin> set ''email''" by simp
    then show ?thesis by blast
  next
    case 4
    then have "tok = CHR ''['' # ''company'' @ '']'' \<and> CHR '']'' \<notin> set ''company''" by simp
    then show ?thesis by blast
  qed
qed

lemma table_tokens_apart:
  "(tok, f) \<in> set placeholders \<Longrightarrow> (tok', f') \<in> set placeholders \<Longrightarrow> tok' \<noteq> tok
     \<Longrightarrow> \<not> ci_occurs tok tok'"
  by (auto simp: placeholders_def canonicalize_def)

lemma table_keys_distinct:
  "(tok, f) \<in> set placeholders \<Longrightarrow> (tok', f') \<in> set placeholders
     \<Longrightarrow> map canonicalize tok = map canonicalize tok' \<Longrightarrow> (tok, f) = (tok', f')"
  by (auto simp: placeholders_def canonicalize_def)

lemma table_distinct: "distinct placeholders"
  by (simp add: placeholders_def)

lemma find_in_table:
  assumes "set table \<subseteq> set placeholders" and "(tk, fk) \<in> set table"
    and "map canonicalize v = map canonicalize tk"
  shows "find (\<lambda>(tok, field). map canonicalize v = map canonicalize tok) table = Some (tk, fk)"
  using assms(1,2)
proof (induction table)
  case Nil
  then show ?case by simp
next
  case (Cons e table)
  obtain te fe where e: "e = (te, fe)" by (cases e)
  show ?case
  proof (cases "map canonicalize v = map canonicalize te")
    case True
    from Cons.prems e have "(te, fe) \<in> set placeholders" "(tk, fk) \<in> set placeholders" by auto
    with True assms(3) have "(te, fe) = (tk, fk)"
      using table_keys_distinct by metis
    with True e show ?thesis by simp
  next
    case False
    with assms(3) e Cons.prems have "(tk, fk) \<in> set table" by auto
    with Cons False e show ?thesis by simp
  qed
qed

lemma find_not_in_table:
  assumes "set table \<subseteq> set placeholders" and "(tk, fk) \<in> set placeholders"
    and "(tk, fk) \<notin> set table" and "map canonicalize v = map canonicalize tk"
  shows "find (\<lambda>(tok, field). map canonicalize v = map canonicalize tok) table = None"
proof -
  have "\<not> (\<exists>e\<in>set table. case e of (tok, field) \<Rightarrow> map canonicalize v = map canonicalize tok)"
  proof
    assume "\<exists>e\<in>set table. case e of (tok, field) \<Rightarrow> map canonicalize v = map canonicalize tok"
    then obtain te fe where e: "(te, fe) \<in> set table" "map canonicalize v = map canonicalize te"
      by auto
    with assms(1) have "(te, fe) \<in> set placeholders" by auto
    with assms(2,4) e(2) have "(te, fe) = (tk, fk)"
      using table_keys_distinct by metis
    with e(1) assms(3) show False by simp
  qed
  then show ?thesis unfolding find_None_iff by blast
qed

lemma entry_behind:
  assumes split: "table = done @ x # later"
    and k: "k < length table" "table ! k = e" and 3: "length done < k"
  shows "e \<in> set later"
proof -
  define m where "m = k - Suc (length done)"
  with 3 have m: "k = length done + Suc m" by simp
  have "(done @ x # later) ! (length done + Suc m) = later ! m"
    by (simp only: nth_append_length_plus nth_Cons_Suc)
  with k(2) have a: "later ! m = e"
    by (simp only: split m)
  from k(1) have "length done + Suc m < length (done @ x # later)"
    by (simp only: split m)
  then have b: "m < length later"
    by simp
  from b have "later ! m \<in> set later" by (rule nth_mem)
  with a show ?thesis by simp
qed

lemma tok_piece_cases:
  assumes split: "placeholders = done @ (tok, f) # later" and ok: "piece_ok r (Tok v)"
  obtains
    (earlier) tk fk where "(tk, fk) \<in> set done" "map canonicalize v = map canonicalize tk"
      "brackets_closed (fk r)" "\<not> ci_occurs tok (fk r)"
  | (here) "map canonicalize v = map canonicalize tok" "CHR ''$'' \<notin> set (f r)"
  | (later) tk fk where "(tk, fk) \<in> set later" "map canonicalize v = map canonicalize tk"
proof -
  from ok obtain k where kl: "k < length placeholders"
    and c: "case placeholders ! k of (tok, field) \<Rightarrow>
          map canonicalize v = map canonicalize tok \<and>
          CHR ''$'' \<notin> set (field r) \<and> brackets_closed (field r) \<and>
          (\<forall>(tok', field') \<in> set (drop (Suc k) placeholders). \<not> ci_occurs tok' (field r))"
    unfolding piece_ok.simps by (elim exE conjE) (rule that, assumption+)
  obtain tk fk where e: "placeholders ! k = (tk, fk)" by (cases "placeholders ! k")
  note k = kl e
  from c e have v: "map canonicalize v = map canonicalize tk"
    and val: "CHR ''$'' \<notin> set (fk r)" "brackets_closed (fk r)"
    and lat: "\<forall>(tok', field') \<in> set (drop (Suc k) placeholders). \<not> ci_occurs tok' (fk r)"
    by simp_all
  consider "k < length done" | "k = length done" | "length done < k" by linarith
  then show thesis
  proof cases
    case 1
    with k split have a: "(tk, fk) \<in> set done"
      by (metis nth_append nth_mem)
    from 1 have "drop (Suc k) placeholders = drop (Suc k) done @ (tok, f) # later"
      by (simp add: split)
    then have "(tok, f) \<in> set (drop (Suc k) placeholders)"
      by simp
    with lat have b: "\<not> ci_occurs tok (fk r)" by auto
    from a v val(2) b show thesis by (rule earlier)
  next
    case 2
    with k have "(tk, fk) = (tok, f)" by (simp add: split)
    with v val show thesis by (intro here) simp_all
  next
    case 3
    with split k have "(tk, fk) \<in> set later"
      by (rule entry_behind)
    then show thesis using v by (rule later)
  qed
qed


lemma table_text_skip:
  assumes "(tok, f) \<in> set placeholders" and "brackets_closed s" and "\<not> ci_occurs tok s"
  shows "replace_from (map lit_ci tok) val passed (s @ y) =
     s @ replace_from (map lit_ci tok) val (passed @ s) y"
proof -
  from table_token_shape [OF assms(1)] obtain b
    where shape: "tok = CHR ''['' # b @ '']''" and nb: "CHR '']'' \<notin> set b"
    by blast
  have "\<not> ci_occurs (CHR ''['' # b @ '']'') s"
    using assms(3) unfolding shape .
  with nb assms(2) show ?thesis
    unfolding shape by (rule closed_text_skip)
qed

lemma table_hit:
  assumes "(tok, f) \<in> set placeholders" and "map canonicalize v = map canonicalize tok"
    and "CHR ''$'' \<notin> set val"
  shows "replace_from (map lit_ci tok) val passed (v @ y) =
     val @ replace_from (map lit_ci tok) val (passed @ v) y"
proof -
  from table_token_shape [OF assms(1)] have ne: "tok \<noteq> []" by auto
  have "replace_from (map lit_ci tok) val passed (v @ y) =
      get_substitution (take (length tok) (v @ y)) passed (drop (length tok) (v @ y)) val @
      replace_from (map lit_ci tok) val (passed @ take (length tok) (v @ y)) (drop (length tok) (v @ y))"
    using variant_prefix(1) [OF assms(2)] ne by (rule replace_from_hit)
  then show ?thesis
    using variant_prefix(2) [OF assms(2)] assms(3) by (simp add: get_substitution_plain)
qed

lemma stage_step_from:
  assumes split: "placeholders = done @ (tok, f) # later"
  shows "\<forall>p\<in>set ps. piece_ok r p \<Longrightarrow>
    replace_from (map lit_ci tok) (f r) passed (concat (map (partial_resolve done r) ps)) =
      concat (map (partial_resolve (done @ [(tok, f)]) r) ps)"
proof (induction ps arbitrary: passed)
  case Nil
  have "(tok, f) \<in> set placeholders" unfolding split by simp
  from table_token_shape [OF this] have "tok \<noteq> []" by auto
  then show ?case by (simp add: replace_from_Nil)
next
  case (Cons p ps)
  let ?P = "\<lambda>v. (\<lambda>(tok, field). map canonicalize v = map canonicalize tok)"
  have here: "(tok, f) \<in> set placeholders"
    and sub: "set done \<subseteq> set placeholders" "set (done @ [(tok, f)]) \<subseteq> set placeholders"
    unfolding split by auto
  have dis: "(tok, f) \<notin> set done" "(tok, f) \<notin> set later" "set done \<inter> set later = {}"
    using table_distinct unfolding split by auto
  from Cons.prems have okp: "piece_ok r p" and oks: "\<forall>p\<in>set ps. piece_ok r p"
    by simp_all
  note IH = Cons.IH [OF oks]
  show ?case
  proof (cases p)
    case (Text s)
    with okp here have "brackets_closed s" "\<not> ci_occurs tok s"
      by auto
    with here have "replace_from (map lit_ci tok) (f r) passed (s @ concat (map (partial_resolve done r) ps)) =
        s @ replace_from (map lit_ci tok) (f r) (passed @ s) (concat (map (partial_resolve done r) ps))"
      by (rule table_text_skip)
    with IH Text show ?thesis by simp
  next
    case (Tok v)
    with okp have okv: "piece_ok r (Tok v)" by simp
    from split okv show ?thesis
    proof (cases rule: tok_piece_cases)
      case (earlier tk fk)
      from sub(1) earlier(1,2) have 1: "find (?P v) done = Some (tk, fk)"
        by (rule find_in_table)
      from earlier(1) have "(tk, fk) \<in> set (done @ [(tok, f)])" by simp
      with sub(2) have 2: "find (?P v) (done @ [(tok, f)]) = Some (tk, fk)"
        using earlier(2) by (rule find_in_table)
      from here earlier(3,4)
      have "replace_from (map lit_ci tok) (f r) passed (fk r @ concat (map (partial_resolve done r) ps)) =
        fk r @ replace_from (map lit_ci tok) (f r) (passed @ fk r) (concat (map (partial_resolve done r) ps))"
        by (rule table_text_skip)
      with IH Tok 1 2 show ?thesis by simp
    next
      case here': here
      from sub(1) here dis(1) here'(1) have 1: "find (?P v) done = None"
        by (rule find_not_in_table)
      have "(tok, f) \<in> set (done @ [(tok, f)])" by simp
      with sub(2) have 2: "find (?P v) (done @ [(tok, f)]) = Some (tok, f)"
        using here'(1) by (rule find_in_table)
      from here here'
      have "replace_from (map lit_ci tok) (f r) passed (v @ concat (map (partial_resolve done r) ps)) =
        f r @ replace_from (map lit_ci tok) (f r) (passed @ v) (concat (map (partial_resolve done r) ps))"
        by (rule table_hit)
      with IH Tok 1 2 show ?thesis by simp
    next
      case (later tk fk)
      then have mem: "(tk, fk) \<in> set placeholders" unfolding split by simp
      from later(1) dis have out: "(tk, fk) \<notin> set done" "(tk, fk) \<notin> set (done @ [(tok, f)])"
        by auto
      from sub(1) mem out(1) later(2) have 1: "find (?P v) done = None"
        by (rule find_not_in_table)
      from sub(2) mem out(2) later(2) have 2: "find (?P v) (done @ [(tok, f)]) = None"
        by (rule find_not_in_table)
      from table_token_shape [OF mem] obtain b where "tk = (CHR ''['' # b) @ '']''"
        by auto
      with later(2) have cl: "brackets_closed v"
        using variant_closed by metis
      have "tk \<noteq> tok"
      proof
        assume "tk = tok"
        with mem here have "(tk, fk) = (tok, f)"
          using table_keys_distinct by metis
        with later(1) dis(2) show False by simp
      qed
      with here mem have "\<not> ci_occurs tok tk" by (rule table_tokens_apart)
      with later(2) have no: "\<not> ci_occurs tok v"
        using ci_occurs_cong by metis
      from here cl no
      have "replace_from (map lit_ci tok) (f r) passed (v @ concat (map (partial_resolve done r) ps)) =
        v @ replace_from (map lit_ci tok) (f r) (passed @ v) (concat (map (partial_resolve done r) ps))"
        by (rule table_text_skip)
      with IH Tok 1 2 show ?thesis by simp
    qed
  qed
qed

lemma stage_fold:
  "done @ later = placeholders \<Longrightarrow> \<forall>p\<in>set ps. piece_ok r p \<Longrightarrow>
   fold (\<lambda>(tok, field) s. replace_all (map lit_ci tok) (field r) s) later
     (concat (map (partial_resolve done r) ps)) = concat (map (resolve r) ps)"
proof (induction later arbitrary: "done")
  case Nil
  then show ?case by (simp add: resolve_def)
next
  case (Cons x later)
  obtain tok f where x: "x = (tok, f)" by (cases x)
  with Cons.prems(1) have split: "placeholders = done @ (tok, f) # later" by simp
  from split Cons.prems(2)
  have "replace_all (map lit_ci tok) (f r) (concat (map (partial_resolve done r) ps)) =
      concat (map (partial_resolve (done @ [(tok, f)]) r) ps)"
    unfolding replace_all_def by (rule stage_step_from)
  moreover from split have "(done @ [(tok, f)]) @ later = placeholders" by simp
  from Cons.IH [OF this Cons.prems(2)]
  have "fold (\<lambda>(tok, field) s. replace_all (map lit_ci tok) (field r) s) later
     (concat (map (partial_resolve (done @ [(tok, f)]) r) ps)) = concat (map (resolve r) ps)" .
  ultimately show ?case by (simp add: x)
qed

lemma partial_resolve_Nil: "partial_resolve [] r p = spelling p"
  by (cases p) simp_all

lemma render_pieces:
  assumes "\<forall>p\<in>set ps. piece_ok r p"
  shows "replaceVariables (concat (map spelling ps)) r = concat (map (resolve r) ps)"
proof -
  have "[] @ placeholders = placeholders" by simp
  from stage_fold [OF this assms]
  have "fold (\<lambda>(tok, field) s. replace_all (map lit_ci tok) (field r) s) placeholders
     (concat (map (partial_resolve [] r) ps)) = concat (map (resolve r) ps)" .
  then show ?thesis
    by (simp add: replaceVariables_fold partial_resolve_Nil [abs_def])
qed


lemma placeholders_split:
  assumes "placeholders = earlier @ (tok, field) # later"
  shows "(tok = ''[first_name]'' \<and> field = (\<lambda>r. or_empty (firstName r)) \<and>
            later = [(''[last_name]'', \<lambda>r. or_empty (lastName r)), (''[email]'', email),
                     (''[company]'', \<lambda>r. or_empty (company r))]) \<or>
         (tok = ''[last_name]'' \<and> field = (\<lambda>r. or_empty (lastName r)) \<and>
            later = [(''[email]'', email), (''[company]'', \<lambda>r. or_empty (company r))]) \<or>
         (tok = ''[email]'' \<and> field = email \<and>
            later = [(''[company]'', \<lambda>r. or_empty (company r))]) \<or>
         (tok = ''[company]'' \<and> field = (\<lambda>r. or_empty (company r)) \<and> later = [])"
  using assms unfolding placeholders_def
  by (auto simp: Cons_eq_append_conv)

text \<open>
  Claim C4, amended.  For every recipient whose address holds no \<^verbatim>\<open>$\<close> and no
  \<^verbatim>\<open>[company]\<close> token, rendering \<^verbatim>\<open>[email]\<close> gives the address.  More generally, for a
  template made of tokens (any of the four, in whatever letter case, repeated or mixed) and
  of text pieces that hold no token and have their brackets closed, the rendering is the
  template with every token replaced by the field of the recipient (the empty string for
  an absent optional field) and the text as it was, provided that each field put in holds
  no \<^verbatim>\<open>$\<close>, has its brackets closed and holds no token processed later.  For one token in
  a template that has no other \<^verbatim>\<open>[\<close>, the field need not have its brackets closed if no
  token processed later occurs in the result.
\<close>

theorem replaceVariables_substitutes_token:
  "(CHR ''$'' \<notin> set (email r) \<and> \<not> ci_occurs ''[company]'' (email r) \<longrightarrow>
      replaceVariables ''[email]'' r = email r) \<and>
   (\<forall>earlier tok field later u v w.
      placeholders = earlier @ (tok, field) # later \<and>
      map canonicalize v = map canonicalize tok \<and>
      CHR ''['' \<notin> set u \<and> CHR ''['' \<notin> set w \<and> CHR ''$'' \<notin> set (field r) \<and>
      (\<forall>(tok', field') \<in> set later. \<not> ci_occurs tok' (u @ field r @ w)) \<longrightarrow>
      replaceVariables (u @ v @ w) r = u @ field r @ w) \<and>
   (\<forall>ps. (\<forall>p\<in>set ps. piece_ok r p) \<longrightarrow>
      replaceVariables (concat (map spelling ps)) r = concat (map (resolve r) ps))"
proof (intro conjI impI allI)
  assume "CHR ''$'' \<notin> set (email r) \<and> \<not> ci_occurs ''[company]'' (email r)"
  then have "replaceVariables ([] @ ''[email]'' @ []) r = [] @ email r @ []"
    by (intro render_email) simp_all
  then show "replaceVariables ''[email]'' r = email r" by simp
next
  fix earlier tok field later u v w
  assume a: "placeholders = earlier @ (tok, field) # later \<and>
      map canonicalize v = map canonicalize tok \<and>
      CHR ''['' \<notin> set u \<and> CHR ''['' \<notin> set w \<and> CHR ''$'' \<notin> set (field r) \<and>
      (\<forall>(tok', field') \<in> set later. \<not> ci_occurs tok' (u @ field r @ w))"
  then have split: "placeholders = earlier @ (tok, field) # later" by blast
  from placeholders_split [OF split] a
  show "replaceVariables (u @ v @ w) r = u @ field r @ w"
    by (elim disjE) (auto intro: render_first_name render_last_name render_email render_company)
next
  fix ps
  assume "\<forall>p\<in>set ps. piece_ok r p"
  then show "replaceVariables (concat (map spelling ps)) r = concat (map (resolve r) ps)"
    by (rule render_pieces)
qed

text \<open>
  The theorem at \<^verbatim>\<open>[email]\<close> for a valid recipient, at \<^verbatim>\<open>Dear [First_Name],\<close> for a recipient
  with a first name and for a recipient without one, and at a template with four tokens,
  one of them twice, and a bracket sequence that is no token.
\<close>

theorem replaceVariables_substitutes_token_witness:
  "validateRecipient ann \<and> replaceVariables ''[email]'' ann = ''ann@x.com'' \<and>
   replaceVariables ''Dear [First_Name],'' ann = ''Dear Ann,'' \<and>
   replaceVariables ''Dear [First_Name],'' cyd = ''Dear ,'' \<and>
   replaceVariables ''Hello [First_Name] at [company]: [email] [EMAIL] [name]'' ann_acme =
     ''Hello Ann at Acme: ann@x.com ann@x.com [name]''"
proof -
  have split: "placeholders = [] @ (''[first_name]'', \<lambda>r. or_empty (firstName r)) #
      [(''[last_name]'', \<lambda>r. or_empty (lastName r)), (''[email]'', email),
       (''[company]'', \<lambda>r. or_empty (company r))]"
    by (simp add: placeholders_def)
  have v: "map canonicalize ''[First_Name]'' = map canonicalize ''[first_name]''"
    by (simp add: canonicalize_def)
  have e: "CHR ''$'' \<notin> set (email ann) \<and> \<not> ci_occurs ''[company]'' (email ann)"
    by (simp add: ann_def canonicalize_def)
  have a: "CHR ''['' \<notin> set ''Dear '' \<and> CHR ''['' \<notin> set '','' \<and>
      CHR ''$'' \<notin> set (or_empty (firstName ann)) \<and>
      (\<forall>(tok', field') \<in> set [(''[last_name]'', \<lambda>r. or_empty (lastName r)), (''[email]'', email),
         (''[company]'', \<lambda>r. or_empty (company r))].
         \<not> ci_occurs tok' (''Dear '' @ or_empty (firstName ann) @ '',''))"
    by (simp add: ann_def or_empty_def canonicalize_def)
  have c: "CHR ''['' \<notin> set ''Dear '' \<and> CHR ''['' \<notin> set '','' \<and>
      CHR ''$'' \<notin> set (or_empty (firstName cyd)) \<and>
      (\<forall>(tok', field') \<in> set [(''[last_name]'', \<lambda>r. or_empty (lastName r)), (''[email]'', email),
         (''[company]'', \<lambda>r. or_empty (company r))].
         \<not> ci_occurs tok' (''Dear '' @ or_empty (firstName cyd) @ '',''))"
    by (simp add: cyd_def or_empty_def canonicalize_def)
  from replaceVariables_substitutes_token [of ann] e
  have 1: "replaceVariables ''[email]'' ann = ''ann@x.com''"
    by (simp add: ann_def)
  from replaceVariables_substitutes_token [of ann] split v a
  have "replaceVariables (''Dear '' @ ''[First_Name]'' @ '','') ann =
      ''Dear '' @ or_empty (firstName ann) @ '',''"
    by blast
  then have 2: "replaceVariables ''Dear [First_Name],'' ann = ''Dear Ann,''"
    by (simp add: ann_def or_empty_def)
  from replaceVariables_substitutes_token [of cyd] split v c
  have "replaceVariables (''Dear '' @ ''[First_Name]'' @ '','') cyd =
      ''Dear '' @ or_empty (firstName cyd) @ '',''"
    by blast
  then have 3: "replaceVariables ''Dear [First_Name],'' cyd = ''Dear ,''"
    by (simp add: cyd_def or_empty_def)
  have t: "piece_ok ann_acme (Text ''Hello '')" "piece_ok ann_acme (Text '' at '')"
    "piece_ok ann_acme (Text '': '')" "piece_ok ann_acme (Text '' '')"
    "piece_ok ann_acme (Text '' [name]'')"
    by (simp_all add: placeholders_def canonicalize_def)
  have k0: "piece_ok ann_acme (Tok ''[First_Name]'')"
    unfolding piece_ok.simps
    by (rule exI [of _ 0]) (simp add: placeholders_def canonicalize_def ann_acme_def or_empty_def)
  have k2: "piece_ok ann_acme (Tok ''[email]'')" "piece_ok ann_acme (Tok ''[EMAIL]'')"
    unfolding piece_ok.simps
    by (rule exI [of _ 2], simp add: placeholders_def canonicalize_def ann_acme_def or_empty_def)+
  have k3: "piece_ok ann_acme (Tok ''[company]'')"
    unfolding piece_ok.simps
    by (rule exI [of _ 3]) (simp add: placeholders_def canonicalize_def ann_acme_def or_empty_def)
  from t k0 k2 k3 have ok: "\<forall>p\<in>set greeting. piece_ok ann_acme p"
    by (simp add: greeting_def)
  have res: "concat (map (resolve ann_acme) greeting) =
      ''Hello Ann at Acme: ann@x.com ann@x.com [name]''"
    by (simp add: greeting_def resolve_def placeholders_def canonicalize_def ann_acme_def
        or_empty_def)
  from replaceVariables_substitutes_token [of ann_acme] ok
  have "replaceVariables (concat (map spelling greeting)) ann_acme =
      concat (map (resolve ann_acme) greeting)"
    by blast
  then have 4: "replaceVariables ''Hello [First_Name] at [company]: [email] [EMAIL] [name]'' ann_acme =
      ''Hello Ann at Acme: ann@x.com ann@x.com [name]''"
    by (simp add: res) (simp add: greeting_def)
  from 1 2 3 4 validate_examples(1) show ?thesis by blast
qed

text \<open>
  Why the brackets have to be closed: the replacements run one after the other, so a
  \<^verbatim>\<open>[\<close> left open in the text or in a field can become a token together with what
  follows it once a token has been replaced.  With an absent first name,
  \<^verbatim>\<open>[em[first_name]ail]\<close> becomes \<^verbatim>\<open>[email]\<close> and then the address; with the first name
  \<^verbatim>\<open>[em\<close>, so does \<^verbatim>\<open>[first_name]ail]\<close>.
\<close>

lemma open_bracket_becomes_token:
  "replaceVariables ''[em[first_name]ail]'' cyd = ''cyd@x.com''"
  "replaceVariables ''[first_name]ail]''
     \<lparr>email = ''cyd@x.com'', firstName = Some ''[em'', lastName = None, company = None\<rparr> =
   ''cyd@x.com''"
  by code_simp+

lemma render_token_address:
  "replaceVariables ''[email]'' token_address = ''Acme@x.com''"
proof -
  have n: "\<not> ci_occurs ''[first_name]'' ''[email]''" "\<not> ci_occurs ''[last_name]'' ''[email]''"
    by (simp_all add: canonicalize_def)
  have 1: "replace_all first_name_rx (or_empty (firstName token_address)) ''[email]'' = ''[email]''"
    unfolding first_name_rx_def by (rule replace_all_absent [OF n(1)])
  have 2: "replace_all last_name_rx (or_empty (lastName token_address)) ''[email]'' = ''[email]''"
    unfolding last_name_rx_def by (rule replace_all_absent [OF n(2)])
  have "replace_all (map lit_ci ''[email]'') ''[company]@x.com'' ([] @ ''[email]'' @ []) =
      [] @ ''[company]@x.com'' @ []"
    by (rule replace_single) simp_all
  then have 3: "replace_all email_rx (email token_address) ''[email]'' = ''[company]@x.com''"
    by (simp add: email_rx_def token_address_def)
  have "replace_all (map lit_ci ''[company]'') ''Acme'' ([] @ ''[company]'' @ ''@x.com'') =
      [] @ ''Acme'' @ ''@x.com''"
    by (rule replace_single) simp_all
  then have 4: "replace_all company_rx (or_empty (company token_address)) ''[company]@x.com'' = ''Acme@x.com''"
    by (simp add: company_rx_def token_address_def or_empty_def)
  show ?thesis
    unfolding replaceVariables_def by (simp only: 1 2 3 4)
qed

text \<open>
  Claim C4 as stated fails.  The address \<^verbatim>\<open>[company]@x.com\<close> is valid, and rendering
  \<^verbatim>\<open>[email]\<close> for it gives \<^verbatim>\<open>Acme@x.com\<close>: the token inside the address is replaced by
  the call of \<^verbatim>\<open>replace\<close> that follows.
\<close>

theorem render_email_is_not_address:
  "validateRecipient token_address \<and>
   replaceVariables ''[email]'' token_address = ''Acme@x.com'' \<and>
   email token_address = ''[company]@x.com''"
proof -
  have "validateRecipient token_address"
    by (simp add: rx_eval token_address_def)
  with render_token_address show ?thesis
    by (simp add: token_address_def)
qed


lemma first_name_step_on_email:
  "replace_all first_name_rx a ''[email]'' = ''[email]''"
proof -
  have "\<not> ci_occurs ''[first_name]'' ''[email]''"
    by (simp add: canonicalize_def)
  then show ?thesis
    unfolding first_name_rx_def by (rule replace_all_absent)
qed

lemma last_name_step_on_email:
  "replace_all last_name_rx a ''[email]'' = ''[email]''"
proof -
  have "\<not> ci_occurs ''[last_name]'' ''[email]''"
    by (simp add: canonicalize_def)
  then show ?thesis
    unfolding last_name_rx_def by (rule replace_all_absent)
qed

lemma first_name_step_injects:
  "replace_all first_name_rx ''[email]'' ''[first_name]'' = ''[email]''"
proof -
  have "replace_all (map lit_ci ''[first_name]'') ''[email]'' ([] @ ''[first_name]'' @ []) =
      [] @ ''[email]'' @ []"
    by (rule replace_single) simp_all
  then show ?thesis by (simp add: first_name_rx_def)
qed

text \<open>
  Claim C9, amended.  Rendering is the four replacements one after the other, in the
  order of the table, each on the result of the one before.  So for a recipient whose
  first name is \<^verbatim>\<open>[email]\<close>, rendering \<^verbatim>\<open>[first_name]\<close> gives what rendering \<^verbatim>\<open>[email]\<close>
  gives; that is the address of the recipient when the address holds no \<^verbatim>\<open>$\<close> and no
  \<^verbatim>\<open>[company]\<close> token.
\<close>

theorem injected_token_is_substituted:
  assumes "firstName r = Some ''[email]''"
  shows "replaceVariables t r =
           fold (\<lambda>(tok, field) s. replace_all (map lit_ci tok) (field r) s) placeholders t \<and>
         replaceVariables ''[first_name]'' r = replaceVariables ''[email]'' r \<and>
         (CHR ''$'' \<notin> set (email r) \<and> \<not> ci_occurs ''[company]'' (email r) \<longrightarrow>
            replaceVariables ''[first_name]'' r = email r)"
proof -
  from assms have n: "or_empty (firstName r) = ''[email]''"
    by (simp add: or_empty_def)
  have same: "replaceVariables ''[first_name]'' r = replaceVariables ''[email]'' r"
    unfolding replaceVariables_def n
    by (simp only: first_name_step_injects first_name_step_on_email)
  have "replaceVariables ''[email]'' r = email r"
    if "CHR ''$'' \<notin> set (email r) \<and> \<not> ci_occurs ''[company]'' (email r)"
  proof -
    from that have "replaceVariables ([] @ ''[email]'' @ []) r = [] @ email r @ []"
      by (intro render_email) simp_all
    then show ?thesis by simp
  qed
  with same replaceVariables_fold [of t r] show ?thesis by simp
qed

text \<open>The theorem at a recipient with the address \<^verbatim>\<open>ann@x.com\<close> and the first name
  \<^verbatim>\<open>[email]\<close>.\<close>

theorem injected_token_is_substituted_witness:
  "firstName email_as_name = Some ''[email]'' \<and>
   replaceVariables ''[first_name]'' email_as_name = ''ann@x.com''"
proof -
  have f: "firstName email_as_name = Some ''[email]''"
    by (simp add: email_as_name_def)
  have "CHR ''$'' \<notin> set (email email_as_name) \<and> \<not> ci_occurs ''[company]'' (email email_as_name)"
    by (simp add: email_as_name_def canonicalize_def)
  with injected_token_is_substituted [OF f]
  have "replaceVariables ''[first_name]'' email_as_name = email email_as_name"
    by blast
  with f show ?thesis by (simp add: email_as_name_def)
qed

text \<open>
  Claim C9 as stated fails.  For a recipient with the first name \<^verbatim>\<open>[email]\<close> and the address
  \<^verbatim>\<open>sales@[company].com\<close>, rendering \<^verbatim>\<open>[first_name]\<close> gives \<^verbatim>\<open>sales@Acme.com\<close>, not the
  address: the token inside the address is replaced in its turn.
\<close>

theorem injected_address_is_substituted_too:
  "firstName token_name = Some ''[email]'' \<and>
   replaceVariables ''[first_name]'' token_name = ''sales@Acme.com'' \<and>
   email token_name = ''sales@[company].com''"
proof -
  have 1: "replace_all first_name_rx (or_empty (firstName token_name)) ''[first_name]'' = ''[email]''"
    using first_name_step_injects by (simp add: token_name_def or_empty_def)
  have "replace_all (map lit_ci ''[email]'') ''sales@[company].com'' ([] @ ''[email]'' @ []) =
      [] @ ''sales@[company].com'' @ []"
    by (rule replace_single) simp_all
  then have 3: "replace_all email_rx (email token_name) ''[email]'' = ''sales@[company].com''"
    by (simp add: email_rx_def token_name_def)
  have "replace_all (map lit_ci ''[company]'') ''Acme'' (''sales@'' @ ''[company]'' @ ''.com'') =
      ''sales@'' @ ''Acme'' @ ''.com''"
    by (rule replace_single) simp_all
  then have 4: "replace_all company_rx (or_empty (company token_name)) ''sales@[company].com'' = ''sales@Acme.com''"
    by (simp add: company_rx_def token_name_def or_empty_def)
  have "replaceVariables ''[first_name]'' token_name = ''sales@Acme.com''"
    unfolding replaceVariables_def by (simp only: 1 last_name_step_on_email 3 4)
  then show ?thesis by (simp add: token_name_def)
qed

text \<open>
  The replacement text is a template of \<^verbatim>\<open>replace\<close>: for the valid address \<^verbatim>\<open>a$&b@x.com\<close>
  the pattern \<^verbatim>\<open>$&\<close> inside the address stands for the matched token, and rendering
  \<^verbatim>\<open>[email]\<close> gives \<^verbatim>\<open>a[email]b@x.com\<close>.
\<close>

theorem dollar_pattern_in_address_is_expanded:
  "validateRecipient dollar_address \<and>
   replaceVariables ''[email]'' dollar_address = ''a[email]b@x.com''"
proof -
  have v: "validateRecipient dollar_address"
    by (simp add: rx_eval dollar_address_def)
  have p: "ci_prefix ''[email]'' ''[email]''"
    by (simp add: canonicalize_def)
  have "replace_from (map lit_ci ''[email]'') ''a$&b@x.com'' [] ''[email]'' =
      get_substitution (take (length ''[email]'') ''[email]'') [] (drop (length ''[email]'') ''[email]'') ''a$&b@x.com'' @
      replace_from (map lit_ci ''[email]'') ''a$&b@x.com'' ([] @ take (length ''[email]'') ''[email]'') (drop (length ''[email]'') ''[email]'')"
    using p by (rule replace_from_hit) simp
  also have "\<dots> = ''a[email]b@x.com''"
    by (simp add: replace_from_Nil del: list.map)
  finally have 3: "replace_all email_rx (email dollar_address) ''[email]'' = ''a[email]b@x.com''"
    by (simp add: replace_all_def email_rx_def dollar_address_def)
  have "\<not> ci_occurs ''[company]'' ''a[email]b@x.com''"
    by (simp add: canonicalize_def)
  then have 4: "replace_all company_rx (or_empty (company dollar_address)) ''a[email]b@x.com'' = ''a[email]b@x.com''"
    unfolding company_rx_def by (rule replace_all_absent)
  have "replaceVariables ''[email]'' dollar_address = ''a[email]b@x.com''"
    unfolding replaceVariables_def
    by (simp only: first_name_step_on_email last_name_step_on_email 3 4)
  with v show ?thesis by blast
qed


end
